theory Spec2Isabelle
  imports Complex_Main "HOL-Library.Multiset"
begin

section \<open>Numeric model and constants\<close>

text \<open>
  The programs compute with C \<open>float\<close>, \<open>double\<close> and \<open>int\<close>.  Temperatures and
  precipitation are modelled as real numbers and arithmetic on them is exact: rounding,
  NaN and infinities are outside the model, and every stored temperature is a finite
  number.  Minimum and maximum of finite floats are exact in C as well, so \<open>fminf\<close> and
  \<open>fmaxf\<close> are \<open>min\<close> and \<open>max\<close>.  Counters are C \<open>int\<close>s that only ever grow from
  zero by one per record; they are modelled as unbounded integers (a file holds far
  fewer than \<open>2^31\<close> lines).
\<close>

definition FLT_MAX :: real where
  "FLT_MAX = (2 ^ 24 - 1) * 2 ^ 104"

definition DBL_MAX :: real where
  "DBL_MAX = (2 ^ 53 - 1) * 2 ^ 971"

definition MAX_RECORDS_PER_FILE :: nat where
  "MAX_RECORDS_PER_FILE = 50000"

definition BLOCK_SIZE :: nat where
  "BLOCK_SIZE = 256"

section \<open>The CUDA kernel \<open>process_weather_records\<close>\<close>

record WeatherRecord =
  avg_temp :: real
  precipitation :: real
  month :: int
  valid_temp :: bool
  valid_precip :: bool

text \<open>
  The kernel keeps eight shared arrays indexed by the thread id.  One value of
  \<open>Shared\<close> is the column of these arrays that belongs to one thread: the thread's
  private accumulator.
\<close>

record Shared =
  sh_temp_sum :: real
  sh_temp_min :: real
  sh_temp_max :: real
  sh_temp_count :: int
  sh_precip_sum :: real
  sh_precip_count :: int
  sh_monthly_temp :: "real list"
  sh_monthly_count :: "int list"

text \<open>Initialisation of the thread's column (kernel lines 156--167).\<close>

definition init_shared :: Shared where
  "init_shared =
     \<lparr>sh_temp_sum = 0, sh_temp_min = FLT_MAX, sh_temp_max = - FLT_MAX, sh_temp_count = 0,
      sh_precip_sum = 0, sh_precip_count = 0,
      sh_monthly_temp = replicate 12 0, sh_monthly_count = replicate 12 0\<rparr>"

text \<open>The body of the thread's \<open>while\<close> loop for one record (kernel lines 171--188).\<close>

definition accumulate :: "Shared \<Rightarrow> WeatherRecord \<Rightarrow> Shared" where
  "accumulate sh rec =
     (let sh1 =
        (if valid_temp rec then
           (let a = sh\<lparr>sh_temp_sum := sh_temp_sum sh + avg_temp rec,
                         sh_temp_min := min (sh_temp_min sh) (avg_temp rec),
                         sh_temp_max := max (sh_temp_max sh) (avg_temp rec),
                         sh_temp_count := sh_temp_count sh + 1\<rparr>
            in if 0 \<le> month rec \<and> month rec < 12 then
                 a\<lparr>sh_monthly_temp :=
                      (sh_monthly_temp a)[nat (month rec) :=
                         sh_monthly_temp a ! nat (month rec) + avg_temp rec],
                   sh_monthly_count :=
                      (sh_monthly_count a)[nat (month rec) :=
                         sh_monthly_count a ! nat (month rec) + 1]\<rparr>
               else a)
         else sh)
      in if valid_precip rec then
           sh1\<lparr>sh_precip_sum := sh_precip_sum sh1 + precipitation rec,
                sh_precip_count := sh_precip_count sh1 + 1\<rparr>
         else sh1)"

text \<open>
  The thread's loop \<open>while (idx < num_records) { ...; idx += blockDim.x * gridDim.x; }\<close>.
  With a stride of zero the C loop would not end, so the loop is a partial function.
\<close>

partial_function (option) thread_loop ::
  "WeatherRecord list \<Rightarrow> nat \<Rightarrow> nat \<Rightarrow> Shared \<Rightarrow> Shared option" where
  "thread_loop records stride idx sh =
     (if idx < length records
      then thread_loop records stride (idx + stride) (accumulate sh (records ! idx))
      else Some sh)"

text \<open>
  One step of the block-level reduction for the pair of columns \<open>tid\<close> and \<open>tid + s\<close>
  (kernel lines 198--208): this is the combine operation of the accumulators.  The
  inner loop over the twelve months is \<open>add_months\<close>.
\<close>

definition add_months :: "'a::plus list \<Rightarrow> 'a list \<Rightarrow> 'a list" where
  "add_months xs ys = fold (\<lambda>m zs. zs[m := zs ! m + ys ! m]) [0..<12] xs"

definition combine :: "Shared \<Rightarrow> Shared \<Rightarrow> Shared" where
  "combine a b =
     \<lparr>sh_temp_sum = sh_temp_sum a + sh_temp_sum b,
      sh_temp_min = min (sh_temp_min a) (sh_temp_min b),
      sh_temp_max = max (sh_temp_max a) (sh_temp_max b),
      sh_temp_count = sh_temp_count a + sh_temp_count b,
      sh_precip_sum = sh_precip_sum a + sh_precip_sum b,
      sh_precip_count = sh_precip_count a + sh_precip_count b,
      sh_monthly_temp = add_months (sh_monthly_temp a) (sh_monthly_temp b),
      sh_monthly_count = add_months (sh_monthly_count a) (sh_monthly_count b)\<rparr>"

text \<open>
  One round of the reduction loop: every thread \<open>tid < s\<close> combines its column with
  column \<open>tid + s\<close>, the others leave theirs alone.  The columns read (\<open>tid + s \<ge> s\<close>)
  are not written in the same round, and \<open>__syncthreads\<close> separates the rounds, so
  the round is a simultaneous update.
\<close>

definition reduce_step :: "nat \<Rightarrow> Shared list \<Rightarrow> Shared list" where
  "reduce_step s sh =
     map (\<lambda>tid. if tid < s then combine (sh ! tid) (sh ! (tid + s)) else sh ! tid)
       [0..<length sh]"

text \<open>The loop \<open>for (s = blockDim.x / 2; s > 0; s >>= 1)\<close>, entered with \<open>s\<close>.\<close>

function block_reduce :: "nat \<Rightarrow> Shared list \<Rightarrow> Shared list" where
  "block_reduce s sh = (if 0 < s then block_reduce (s div 2) (reduce_step s sh) else sh)"
  by pat_completeness auto
termination
  by (relation "measure fst") auto

declare block_reduce.simps [simp del]

text \<open>
  The eight output locations in device memory, and what the host stores in them before
  the launch (\<open>process_city_file_cuda\<close>, lines 310--323).
\<close>

record Outputs =
  temp_sum_out :: real
  temp_min_out :: real
  temp_max_out :: real
  temp_count_out :: int
  precip_sum_out :: real
  precip_count_out :: int
  monthly_temp_sum_out :: "real list"
  monthly_temp_count_out :: "int list"

definition init_outputs :: Outputs where
  "init_outputs =
     \<lparr>temp_sum_out = 0, temp_min_out = DBL_MAX, temp_max_out = - DBL_MAX, temp_count_out = 0,
      precip_sum_out = 0, precip_count_out = 0,
      monthly_temp_sum_out = replicate 12 0, monthly_temp_count_out = replicate 12 0\<rparr>"

text \<open>
  \<open>fminf(*temp_min_out, sh_temp_min[0])\<close> takes a \<open>double\<close> and a \<open>float\<close>: the
  double is converted to \<open>float\<close> first.  A double above \<open>FLT_MAX\<close> (the host's initial
  \<open>DBL_MAX\<close>) converts to \<open>+infinity\<close>, and \<open>fminf\<close> then returns the other argument;
  likewise for \<open>fmaxf\<close> and a double below \<open>-FLT_MAX\<close>.
\<close>

definition fminf_df :: "real \<Rightarrow> real \<Rightarrow> real" where
  "fminf_df d f = (if FLT_MAX < d then f else min d f)"

definition fmaxf_df :: "real \<Rightarrow> real \<Rightarrow> real" where
  "fmaxf_df d f = (if d < - FLT_MAX then f else max d f)"

text \<open>
  What thread 0 of a block does with the block's result \<open>sh[0]\<close> (kernel lines
  214--226), executed without interference from another block.  The sums and counts
  use \<open>atomicAdd\<close>; the minimum and the maximum are a plain read, \<open>fminf\<close>/\<open>fmaxf\<close>,
  and a plain write.
\<close>

definition thread0_writes :: "Outputs \<Rightarrow> Shared \<Rightarrow> Outputs" where
  "thread0_writes out s0 =
     \<lparr>temp_sum_out = temp_sum_out out + sh_temp_sum s0,
      temp_min_out = fminf_df (temp_min_out out) (sh_temp_min s0),
      temp_max_out = fmaxf_df (temp_max_out out) (sh_temp_max s0),
      temp_count_out = temp_count_out out + sh_temp_count s0,
      precip_sum_out = precip_sum_out out + sh_precip_sum s0,
      precip_count_out = precip_count_out out + sh_precip_count s0,
      monthly_temp_sum_out = add_months (monthly_temp_sum_out out) (sh_monthly_temp s0),
      monthly_temp_count_out = add_months (monthly_temp_count_out out) (sh_monthly_count s0)\<rparr>"

text \<open>
  One block \<open>b\<close> of a launch with \<open>B\<close> threads per block and \<open>G\<close> blocks: thread
  \<open>tid\<close> starts at \<open>idx = b * B + tid\<close> with stride \<open>B * G\<close>; after the barrier the
  reduction loop starts at \<open>B div 2\<close>; the block's result is column 0.
\<close>

definition run_threads :: "WeatherRecord list \<Rightarrow> nat \<Rightarrow> nat \<Rightarrow> nat \<Rightarrow> Shared list option" where
  "run_threads records B G b =
     those (map (\<lambda>tid. thread_loop records (B * G) (b * B + tid) init_shared) [0..<B])"

definition block_result :: "WeatherRecord list \<Rightarrow> nat \<Rightarrow> nat \<Rightarrow> nat \<Rightarrow> Shared option" where
  "block_result records B G b =
     (case run_threads records B G b of
        None \<Rightarrow> None
      | Some sh \<Rightarrow> (case block_reduce (B div 2) sh of [] \<Rightarrow> None | s0 # _ \<Rightarrow> Some s0))"

text \<open>
  The whole launch, with the blocks' final writes taking place one block after another
  in the order \<open>order\<close> (a permutation of the block numbers; the hardware chooses it).
  Interleavings in which the plain read and write of the minimum of one block overlap
  those of another block are the subject of \<open>run_min\<close> below.
\<close>

definition process_weather_records ::
  "WeatherRecord list \<Rightarrow> nat \<Rightarrow> nat \<Rightarrow> nat list \<Rightarrow> Outputs \<Rightarrow> Outputs option" where
  "process_weather_records records B G order out =
     fold (\<lambda>b acc. case acc of
                     None \<Rightarrow> None
                   | Some out' \<Rightarrow>
                       (case block_result records B G b of
                          None \<Rightarrow> None
                        | Some s0 \<Rightarrow> Some (thread0_writes out' s0)))
       order (Some out)"

text \<open>
  The statement \<open>*temp_min_out = fminf(*temp_min_out, sh_temp_min[0])\<close> at the level
  of memory accesses: thread 0 of block \<open>b\<close> loads the global minimum into a register
  and later stores \<open>fminf\<close> of the register and its block minimum.  A schedule is the
  order in which the loads and stores of all blocks reach memory; the state is the
  global minimum and the register of each block.
\<close>

datatype access = Load nat | Store nat

fun exec_access :: "(nat \<Rightarrow> real) \<Rightarrow> access \<Rightarrow> real \<times> (nat \<Rightarrow> real) \<Rightarrow> real \<times> (nat \<Rightarrow> real)" where
  "exec_access block_min (Load b) (g, reg) = (g, reg(b := g))"
| "exec_access block_min (Store b) (g, reg) = (fminf_df (reg b) (block_min b), reg)"

definition run_min :: "(nat \<Rightarrow> real) \<Rightarrow> access list \<Rightarrow> real \<Rightarrow> real" where
  "run_min block_min schedule g0 = fst (fold (exec_access block_min) schedule (g0, \<lambda>_. 0))"

section \<open>Reading fields of a line: \<open>get_field\<close>, \<open>get_month\<close>\<close>

text \<open>
  A line is the string that one call of \<open>fgets\<close> returns (at most 1023 characters,
  none of them NUL; a longer line of the file arrives in several pieces).  \<open>skip_fields n\<close> is the
  first loop of \<open>get_field\<close>: it moves \<open>start\<close> behind the next comma \<open>n\<close> times and
  gives up (\<open>None\<close>) when \<open>strchr\<close> finds no comma.
\<close>

fun skip_fields :: "nat \<Rightarrow> string \<Rightarrow> string option" where
  "skip_fields 0 start = Some start"
| "skip_fields (Suc n) start =
     (case dropWhile (\<lambda>c. c \<noteq> CHR '','') start of
        [] \<Rightarrow> None
      | c # rest \<Rightarrow> skip_fields n rest)"

definition get_field :: "string \<Rightarrow> nat \<Rightarrow> nat \<Rightarrow> string" where
  "get_field line field_num buf_size =
     (case skip_fields field_num line of
        None \<Rightarrow> []
      | Some start \<Rightarrow>
          take (buf_size - 1)
            (if CHR '','' \<in> set start then takeWhile (\<lambda>c. c \<noteq> CHR '','') start
             else takeWhile (\<lambda>c. c \<noteq> CHR 0x0A) start))"

text \<open>
  The C library's \<open>isspace\<close>, \<open>isdigit\<close> and \<open>atoi\<close> (white space, an optional sign,
  then decimal digits; 0 when there is no digit).
\<close>

definition isspace :: "char \<Rightarrow> bool" where
  "isspace c \<longleftrightarrow> c \<in> {CHR '' '', CHR 0x09, CHR 0x0A, CHR 0x0B, CHR 0x0C, CHR 0x0D}"

definition isdigit :: "char \<Rightarrow> bool" where
  "isdigit c \<longleftrightarrow> c \<in> set ''0123456789''"

definition digits_value :: "string \<Rightarrow> int" where
  "digits_value ds = foldl (\<lambda>a c. 10 * a + (of_char c - 48)) 0 ds"

definition split_sign :: "string \<Rightarrow> bool \<times> string" where
  "split_sign s =
     (case s of
        [] \<Rightarrow> (False, [])
      | c # r \<Rightarrow> if c = CHR ''-'' then (True, r) else if c = CHR ''+'' then (False, r) else (False, s))"

definition atoi :: "string \<Rightarrow> int" where
  "atoi s =
     (let (neg, r) = split_sign (dropWhile isspace s);
          n = digits_value (takeWhile isdigit r)
      in if neg then - n else n)"

definition get_month :: "string \<Rightarrow> int" where
  "get_month date = (if length date < 7 then - 1 else atoi [date ! 5, date ! 6] - 1)"

text \<open>The MPI program's \<open>get_month\<close> checks the range itself.\<close>

definition get_month_mpi :: "string \<Rightarrow> int" where
  "get_month_mpi date =
     (if length date < 7 then - 1
      else (let mon = atoi [date ! 5, date ! 6] - 1
            in if mon < 0 \<or> mon > 11 then - 1 else mon))"

text \<open>
  The C library's \<open>atof\<close> is a parameter \<open>atof\<close> of the functions that call it.  For
  concrete lines, \<open>atof_decimal\<close> is \<open>atof\<close> on plain decimal text (white space, an
  optional sign, digits, an optional fraction): text that does not start with a number
  converts to 0.
\<close>

definition atof_decimal :: "string \<Rightarrow> real" where
  "atof_decimal s =
     (let (neg, r) = split_sign (dropWhile isspace s);
          ip = takeWhile isdigit r;
          fp = (case dropWhile isdigit r of
                  [] \<Rightarrow> []
                | c # r' \<Rightarrow> if c = CHR ''.'' then takeWhile isdigit r' else []);
          v = real_of_int (digits_value ip) + real_of_int (digits_value fp) / 10 ^ length fp
      in if neg then - v else v)"

section \<open>The serial, OpenMP and MPI programs: \<open>process_city_file\<close>\<close>

record CityStats =
  name :: string
  temp_sum :: real
  temp_min :: real
  temp_max :: real
  precip_sum :: real
  temp_count :: int
  precip_count :: int
  record_count :: int
  monthly_temp_sum :: "real list"
  monthly_temp_count :: "int list"

text \<open>The assignments that initialise the statistics of a city.\<close>

definition reset_stats :: "CityStats \<Rightarrow> CityStats" where
  "reset_stats city =
     city\<lparr>temp_sum := 0, temp_min := DBL_MAX, temp_max := - DBL_MAX, precip_sum := 0,
          temp_count := 0, precip_count := 0, record_count := 0,
          monthly_temp_sum := replicate 12 0, monthly_temp_count := replicate 12 0\<rparr>"

text \<open>
  The loop body for one line, in three parts: what happens with a temperature that
  is present, what happens with a precipitation that is present, and the body itself,
  which counts the record, reads the fields and calls the two.
\<close>

definition add_temperature :: "CityStats \<Rightarrow> int \<Rightarrow> real \<Rightarrow> CityStats" where
  "add_temperature city mon temp =
     (let c1 = city\<lparr>temp_sum := temp_sum city + temp, temp_count := temp_count city + 1\<rparr>;
          c2 = (if temp < temp_min c1 then c1\<lparr>temp_min := temp\<rparr> else c1);
          c3 = (if temp > temp_max c2 then c2\<lparr>temp_max := temp\<rparr> else c2)
      in if 0 \<le> mon \<and> mon < 12 then
           c3\<lparr>monthly_temp_sum :=
                (monthly_temp_sum c3)[nat mon := monthly_temp_sum c3 ! nat mon + temp],
              monthly_temp_count :=
                (monthly_temp_count c3)[nat mon := monthly_temp_count c3 ! nat mon + 1]\<rparr>
         else c3)"

definition add_precipitation :: "CityStats \<Rightarrow> real \<Rightarrow> CityStats" where
  "add_precipitation city precip =
     city\<lparr>precip_sum := precip_sum city + precip, precip_count := precip_count city + 1\<rparr>"

definition process_line ::
  "(string \<Rightarrow> int) \<Rightarrow> (string \<Rightarrow> real) \<Rightarrow> CityStats \<Rightarrow> string \<Rightarrow> CityStats" where
  "process_line month_of atof city line =
     (let c1 = city\<lparr>record_count := record_count city + 1\<rparr>;
          date = get_field line 2 32;
          mon = month_of date;
          field_buf = get_field line 4 64;
          c2 = (if field_buf \<noteq> [] then add_temperature c1 mon (atof field_buf) else c1);
          field_buf' = get_field line 7 64
      in if field_buf' \<noteq> [] then add_precipitation c2 (atof field_buf') else c2)"

text \<open>
  A file is \<open>None\<close> when \<open>fopen\<close> fails, and otherwise the lines that the successive
  calls of \<open>fgets\<close> return, the header first.

  The serial program appends to the global table \<open>cities\<close>; the table is modelled by
  its first \<open>city_count\<close> entries.  When the file cannot be opened, or has no header,
  \<open>city_count\<close> is not incremented.
\<close>

definition process_city_file ::
  "(string \<Rightarrow> real) \<Rightarrow> string list option \<Rightarrow> string \<Rightarrow> CityStats \<Rightarrow> CityStats list \<Rightarrow> CityStats list" where
  "process_city_file atof file city_name slot cities =
     (case file of
        None \<Rightarrow> cities
      | Some [] \<Rightarrow> cities
      | Some (header # lines) \<Rightarrow>
          cities @ [foldl (process_line get_month atof)
                      (reset_stats (slot\<lparr>name := take 127 city_name\<rparr>)) lines])"

text \<open>
  In the OpenMP and MPI programs \<open>process_city_file\<close> fills the entry \<open>city\<close> that the
  caller passes; the caller has allocated the entries with \<open>malloc\<close> and has set the
  name only.  The function returns before the initialisation when \<open>fopen\<close> fails.
\<close>

definition process_city_file_omp ::
  "(string \<Rightarrow> int) \<Rightarrow> (string \<Rightarrow> real) \<Rightarrow> string list option \<Rightarrow> CityStats \<Rightarrow> CityStats" where
  "process_city_file_omp month_of atof file city =
     (case file of
        None \<Rightarrow> city
      | Some [] \<Rightarrow> reset_stats city
      | Some (header # lines) \<Rightarrow> foldl (process_line month_of atof) (reset_stats city) lines)"

text \<open>
  The parallel loop of the OpenMP \<open>main\<close>: entry \<open>i\<close> of \<open>local_cities\<close> (whose
  content after \<open>malloc\<close> is \<open>garbage ! i\<close>) gets the name and is passed to
  \<open>process_city_file\<close>; afterwards all \<open>num_files\<close> entries are copied to \<open>cities\<close>.
\<close>

definition omp_main_loop ::
  "(string \<Rightarrow> real) \<Rightarrow> string list option list \<Rightarrow> string list \<Rightarrow> CityStats list \<Rightarrow> CityStats list" where
  "omp_main_loop atof files city_names garbage =
     map (\<lambda>i. process_city_file_omp get_month atof (files ! i)
                 ((garbage ! i)\<lparr>name := take 128 (city_names ! i)\<rparr>))
       [0..<length files]"

section \<open>The CUDA host function \<open>process_city_file_cuda\<close>\<close>

text \<open>
  Parsing one line into the entry \<open>rec\<close> of \<open>h_records\<close> (lines 258--279).  The
  entry comes from \<open>malloc\<close>: a field that is not assigned keeps what the entry held.
\<close>

definition parse_record :: "(string \<Rightarrow> real) \<Rightarrow> WeatherRecord \<Rightarrow> string \<Rightarrow> WeatherRecord" where
  "parse_record atof rec line =
     (let r1 = rec\<lparr>valid_temp := False, valid_precip := False\<rparr>;
          date = get_field line 2 32;
          r2 = r1\<lparr>month := get_month date\<rparr>;
          field_buf = get_field line 4 64;
          r3 = (if field_buf \<noteq> [] then r2\<lparr>avg_temp := atof field_buf, valid_temp := True\<rparr> else r2);
          field_buf' = get_field line 7 64
      in if field_buf' \<noteq> [] then r3\<lparr>precipitation := atof field_buf', valid_precip := True\<rparr>
         else r3)"

text \<open>
  The loop \<open>while (fgets(...) && num_records < MAX_RECORDS_PER_FILE)\<close> over the lines
  after the header; the result is \<open>h_records\<close> and \<open>num_records\<close>.
\<close>

fun read_records ::
  "(string \<Rightarrow> real) \<Rightarrow> string list \<Rightarrow> WeatherRecord list \<Rightarrow> nat \<Rightarrow> WeatherRecord list \<times> nat" where
  "read_records atof [] h_records num_records = (h_records, num_records)"
| "read_records atof (line # lines) h_records num_records =
     (if num_records < MAX_RECORDS_PER_FILE
      then read_records atof lines
             (h_records[num_records := parse_record atof (h_records ! num_records) line])
             (Suc num_records)
      else (h_records, num_records))"

text \<open>The number of blocks of the launch (lines 326--327).\<close>

definition num_blocks_for :: "nat \<Rightarrow> nat" where
  "num_blocks_for num_records =
     (let num_blocks = (num_records + BLOCK_SIZE - 1) div BLOCK_SIZE
      in if num_blocks > 128 then 128 else num_blocks)"

text \<open>
  The host function: \<open>h_records\<close> is the content of the freshly allocated buffer, of
  \<open>MAX_RECORDS_PER_FILE\<close> entries; \<open>order\<close> is the order in which the blocks finish.
  The result is the table of cities (modelled by its first \<open>city_count\<close> entries, as
  for the serial program), or \<open>None\<close> if the kernel does not return.
\<close>

definition process_city_file_cuda ::
  "(string \<Rightarrow> real) \<Rightarrow> WeatherRecord list \<Rightarrow> nat list \<Rightarrow> string list option \<Rightarrow> string \<Rightarrow>
     CityStats list \<Rightarrow> CityStats list option" where
  "process_city_file_cuda atof h_records order file city_name cities =
     (case file of
        None \<Rightarrow> Some cities
      | Some [] \<Rightarrow> Some cities
      | Some (header # lines) \<Rightarrow>
          (let (h, num_records) = read_records atof lines h_records 0
           in if num_records = 0 then Some cities
              else
                (case process_weather_records (take num_records h) BLOCK_SIZE
                        (num_blocks_for num_records) order init_outputs of
                      None \<Rightarrow> None
                    | Some out \<Rightarrow>
                        Some (cities @
                          [\<lparr>name = take 127 city_name,
                            temp_sum = temp_sum_out out,
                            temp_min = temp_min_out out,
                            temp_max = temp_max_out out,
                            precip_sum = precip_sum_out out,
                            temp_count = temp_count_out out,
                            precip_count = precip_count_out out,
                            record_count = int num_records,
                            monthly_temp_sum = monthly_temp_sum_out out,
                            monthly_temp_count = monthly_temp_count_out out\<rparr>]))))"

section \<open>The MPI program: distributing the files, gathering the results\<close>

text \<open>
  \<open>rank\<close>, the number of processes \<open>nprocs\<close> (the program's \<open>size\<close>, at least 1 in
  every MPI run) and \<open>num_files\<close> are C \<open>int\<close>s that are never negative and stay far
  below \<open>2^31\<close>; they are natural numbers here.

  The cyclic loop \<open>for (i = rank; i < num_files; i += size)\<close> would not end with
  \<open>size = 0\<close>, so it is a partial function.
\<close>

partial_function (option) cyclic_loop :: "nat \<Rightarrow> nat \<Rightarrow> nat \<Rightarrow> nat list \<Rightarrow> nat list option" where
  "cyclic_loop i num_files nprocs my_file_indices =
     (if i < num_files
      then cyclic_loop (i + nprocs) num_files nprocs (my_file_indices @ [i])
      else Some my_file_indices)"

text \<open>The block loop \<open>for (i = my_start; i < my_end && i < num_files; i++)\<close>.\<close>

function block_loop :: "nat \<Rightarrow> nat \<Rightarrow> nat \<Rightarrow> nat list \<Rightarrow> nat list" where
  "block_loop i my_end num_files my_file_indices =
     (if i < my_end \<and> i < num_files
      then block_loop (Suc i) my_end num_files (my_file_indices @ [i])
      else my_file_indices)"
  by pat_completeness auto
termination
  by (relation "measure (\<lambda>(i, my_end, num_files, my_file_indices). my_end - i)") auto

declare block_loop.simps [simp del]

definition my_files :: "string \<Rightarrow> nat \<Rightarrow> nat \<Rightarrow> nat \<Rightarrow> nat list option" where
  "my_files dist_mode rank nprocs num_files =
     (if dist_mode = ''cyclic'' then cyclic_loop rank num_files nprocs []
      else
        (let files_per_proc = (num_files + nprocs - 1) div nprocs;
             my_start = rank * files_per_proc;
             my_end = my_start + files_per_proc;
             my_end' = (if my_end > num_files then num_files else my_end)
         in Some (block_loop my_start my_end' num_files [])))"

text \<open>
  Rank 0 computes the displacements in the array \<open>displacements\<close> that \<open>malloc\<close>
  returned (lines 392--395).
\<close>

definition compute_displacements :: "nat list \<Rightarrow> nat list \<Rightarrow> nat list" where
  "compute_displacements all_counts displacements =
     fold (\<lambda>i d. d[i := d ! (i - 1) + all_counts ! (i - 1)]) [1..<length all_counts]
       (displacements[0 := 0])"

text \<open>
  \<open>MPI_Gatherv\<close> (and \<open>MPI_Igatherv\<close> followed by \<open>MPI_Wait\<close>) as the MPI standard
  defines it: the root stores the \<open>recvcounts[i]\<close> elements sent by rank \<open>i\<close> at
  \<open>recvbuf + displs[i]\<close>.  The order in which the messages of the ranks arrive is not
  determined; it is the parameter \<open>arrival\<close>.
\<close>

definition store_block :: "'a list \<Rightarrow> nat \<Rightarrow> 'a list \<Rightarrow> 'a list" where
  "store_block recvbuf displ items =
     fold (\<lambda>j buf. buf[displ + j := items ! j]) [0..<length items] recvbuf"

definition gatherv :: "'a list list \<Rightarrow> nat list \<Rightarrow> nat list \<Rightarrow> nat list \<Rightarrow> 'a list \<Rightarrow> 'a list" where
  "gatherv sendbufs recvcounts displs arrival recvbuf =
     fold (\<lambda>i buf. store_block buf (displs ! i) (take (recvcounts ! i) (sendbufs ! i)))
       arrival recvbuf"

text \<open>
  The gathering part of \<open>main\<close> on rank 0: \<open>all_counts\<close> holds the \<open>my_count\<close> of
  every rank, \<open>all_results\<close> is the freshly allocated buffer of \<open>total_cities\<close>
  entries.
\<close>

definition gather_results :: "'a list list \<Rightarrow> nat list \<Rightarrow> nat list \<Rightarrow> 'a list \<Rightarrow> 'a list" where
  "gather_results local_results arrival displacements all_results =
     (let all_counts = map length local_results;
          displs = compute_displacements all_counts displacements
      in gatherv local_results all_counts displs arrival all_results)"

section \<open>Notions used in the statements\<close>

text \<open>A record with a temperature only, as in the scenarios of the specification.\<close>

definition rec_temp :: "real \<Rightarrow> WeatherRecord" where
  "rec_temp t =
     \<lparr>avg_temp = t, precipitation = 0, month = 0, valid_temp = True, valid_precip = False\<rparr>"

text \<open>
  The fields of an accumulator on which C computes exactly: the counters, the minimum
  and the maximum.
\<close>

definition exact_fields :: "Shared \<Rightarrow> int \<times> real \<times> real \<times> int \<times> int list" where
  "exact_fields a =
     (sh_temp_count a, sh_temp_min a, sh_temp_max a, sh_precip_count a, sh_monthly_count a)"

text \<open>
  What the C types guarantee of a column of the shared arrays: the monthly arrays
  have twelve entries, and a minimum or maximum is a finite \<open>float\<close>.
\<close>

definition well_formed :: "Shared \<Rightarrow> bool" where
  "well_formed a \<longleftrightarrow>
     length (sh_monthly_temp a) = 12 \<and> length (sh_monthly_count a) = 12 \<and>
     sh_temp_min a \<le> FLT_MAX \<and> - FLT_MAX \<le> sh_temp_max a"

text \<open>
  The body of the serial loop applied to a record that is already parsed: the record
  is counted, and its temperature and precipitation are added when they are valid.
  \<open>process_line\<close> is \<open>process_record\<close> after \<open>parse_record\<close> (lemma
  \<open>process_line_parse\<close>).  The single-threaded left fold over the records of a city
  is \<open>foldl process_record\<close> from \<open>reset_stats\<close>.
\<close>

definition process_record :: "CityStats \<Rightarrow> WeatherRecord \<Rightarrow> CityStats" where
  "process_record city rec =
     (let c1 = city\<lparr>record_count := record_count city + 1\<rparr>;
          c2 = (if valid_temp rec then add_temperature c1 (month rec) (avg_temp rec) else c1)
      in if valid_precip rec then add_precipitation c2 (precipitation rec) else c2)"

text \<open>
  The statistics of a multiset of records, used to relate the programs: the valid
  temperatures, those of month \<open>m\<close>, the valid precipitations; the least and the
  greatest element of a multiset together with a sentinel.  \<open>summary M\<close> is the
  accumulator of the kernel that has seen exactly the records \<open>M\<close>, \<open>city_of c M\<close> the
  entry of the serial program.
\<close>

definition temps :: "WeatherRecord multiset \<Rightarrow> real multiset" where
  "temps M = image_mset avg_temp (filter_mset valid_temp M)"

definition month_temps :: "nat \<Rightarrow> WeatherRecord multiset \<Rightarrow> real multiset" where
  "month_temps m M = image_mset avg_temp (filter_mset (\<lambda>r. valid_temp r \<and> month r = int m) M)"

definition precips :: "WeatherRecord multiset \<Rightarrow> real multiset" where
  "precips M = image_mset precipitation (filter_mset valid_precip M)"

definition least :: "real \<Rightarrow> real multiset \<Rightarrow> real" where
  "least s T = Min (insert s (set_mset T))"

definition greatest :: "real \<Rightarrow> real multiset \<Rightarrow> real" where
  "greatest s T = Max (insert s (set_mset T))"

definition summary :: "WeatherRecord multiset \<Rightarrow> Shared" where
  "summary M =
     \<lparr>sh_temp_sum = sum_mset (temps M),
      sh_temp_min = least FLT_MAX (temps M),
      sh_temp_max = greatest (- FLT_MAX) (temps M),
      sh_temp_count = int (size (temps M)),
      sh_precip_sum = sum_mset (precips M),
      sh_precip_count = int (size (precips M)),
      sh_monthly_temp = map (\<lambda>m. sum_mset (month_temps m M)) [0..<12],
      sh_monthly_count = map (\<lambda>m. int (size (month_temps m M))) [0..<12]\<rparr>"

definition city_of :: "CityStats \<Rightarrow> WeatherRecord multiset \<Rightarrow> CityStats" where
  "city_of c M =
     c\<lparr>temp_sum := sum_mset (temps M),
       temp_min := least DBL_MAX (temps M),
       temp_max := greatest (- DBL_MAX) (temps M),
       precip_sum := sum_mset (precips M),
       temp_count := int (size (temps M)),
       precip_count := int (size (precips M)),
       record_count := int (size M),
       monthly_temp_sum := map (\<lambda>m. sum_mset (month_temps m M)) [0..<12],
       monthly_temp_count := map (\<lambda>m. int (size (month_temps m M))) [0..<12]\<rparr>"

text \<open>
  The indices a thread visits when it starts at \<open>idx\<close> with stride \<open>stride\<close>, and the
  records at these indices.
\<close>

definition owned :: "nat \<Rightarrow> nat \<Rightarrow> nat \<Rightarrow> nat set" where
  "owned stride n idx = {i. idx \<le> i \<and> i < n \<and> i mod stride = idx mod stride}"

definition share :: "WeatherRecord list \<Rightarrow> nat \<Rightarrow> nat \<Rightarrow> WeatherRecord multiset" where
  "share records stride idx = image_mset ((!) records) (mset_set (owned stride (length records) idx))"

text \<open>The output locations holding the fields of an accumulator.\<close>

definition as_outputs :: "Shared \<Rightarrow> Outputs" where
  "as_outputs a =
     \<lparr>temp_sum_out = sh_temp_sum a, temp_min_out = sh_temp_min a, temp_max_out = sh_temp_max a,
      temp_count_out = sh_temp_count a, precip_sum_out = sh_precip_sum a,
      precip_count_out = sh_precip_count a, monthly_temp_sum_out = sh_monthly_temp a,
      monthly_temp_count_out = sh_monthly_count a\<rparr>"

text \<open>
  Two concrete values for the examples: a record without temperature and without
  precipitation, and an entry of the table of cities before it is initialised.
\<close>

definition no_temperature :: WeatherRecord where
  "no_temperature =
     \<lparr>avg_temp = 0, precipitation = 0, month = 0, valid_temp = False, valid_precip = False\<rparr>"

definition empty_city :: CityStats where
  "empty_city =
     \<lparr>name = [], temp_sum = 0, temp_min = 0, temp_max = 0, precip_sum = 0, temp_count = 0,
      precip_count = 0, record_count = 0,
      monthly_temp_sum = replicate 12 0, monthly_temp_count = replicate 12 0\<rparr>"





text \<open>
  Lines of a city file for the examples: a complete line, a line whose temperature
  field is empty, a line whose temperature field is not a number, and a line whose date
  is not of the form YYYY-MM-DD.  \<open>garbage_city\<close> is an entry of \<open>local_cities\<close> as
  \<open>malloc\<close> may return it; \<open>has_temperature\<close> is the program's test for a present
  temperature field.
\<close>

definition line_ok :: string where
  "line_ok = ''S1,Riyadh,2024-01-15,Winter,18.5,12.0,25.0,0.0''"

definition line_no_temp :: string where
  "line_no_temp = ''S1,Riyadh,2024-01-16,Winter,,11.0,24.0,1.5''"

definition line_bad_temp :: string where
  "line_bad_temp = ''S1,Riyadh,2024-01-17,Winter,abc,11.0,24.0,''"

definition line_bad_date :: string where
  "line_bad_date = ''S1,Riyadh,17/01/2024,Winter,20,11.0,24.0,''"

definition garbage_city :: CityStats where
  "garbage_city =
     \<lparr>name = [], temp_sum = 3, temp_min = 1, temp_max = 2, precip_sum = 4, temp_count = 5,
      precip_count = 6, record_count = 7,
      monthly_temp_sum = replicate 12 8, monthly_temp_count = replicate 12 9\<rparr>"

definition has_temperature :: "string \<Rightarrow> bool" where
  "has_temperature line \<longleftrightarrow> get_field line 4 64 \<noteq> []"

text \<open>
  The exclusive prefix sum of the counts: the number of results of the sources before
  source \<open>i\<close>.
\<close>

definition offset :: "nat list \<Rightarrow> nat \<Rightarrow> nat" where
  "offset counts i = sum_list (take i counts)"

text \<open>
  The records of a city for the example of two blocks: 300 records, the first with
  temperature 5, all others with temperature 10.
\<close>

definition records_300 :: "WeatherRecord list" where
  "records_300 = rec_temp 5 # replicate 299 (rec_temp 10)"

section \<open>Properties of the combine operation\<close>

lemma add_months_upto:
  "n \<le> length xs \<Longrightarrow>
   fold (\<lambda>m zs. zs[m := zs ! m + ys ! m]) [0..<n] xs =
   map (\<lambda>m. if m < n then xs ! m + ys ! m else xs ! m) [0..<length xs]"
proof (induction n)
  case 0
  then show ?case by (simp add: map_nth)
next
  case (Suc n)
  then have n: "n < length xs" by simp
  have "fold (\<lambda>m zs. zs[m := zs ! m + ys ! m]) [0..<Suc n] xs =
        (map (\<lambda>m. if m < n then xs ! m + ys ! m else xs ! m) [0..<length xs])
          [n := (map (\<lambda>m. if m < n then xs ! m + ys ! m else xs ! m) [0..<length xs]) ! n + ys ! n]"
    using Suc by simp
  also have "\<dots> = map (\<lambda>m. if m < Suc n then xs ! m + ys ! m else xs ! m) [0..<length xs]"
  proof (rule nth_equalityI)
    fix i
    assume "i < length ((map (\<lambda>m. if m < n then xs ! m + ys ! m else xs ! m) [0..<length xs])
          [n := (map (\<lambda>m. if m < n then xs ! m + ys ! m else xs ! m) [0..<length xs]) ! n + ys ! n])"
    then have i: "i < length xs" by simp
    show "((map (\<lambda>m. if m < n then xs ! m + ys ! m else xs ! m) [0..<length xs])
          [n := (map (\<lambda>m. if m < n then xs ! m + ys ! m else xs ! m) [0..<length xs]) ! n + ys ! n]) ! i
        = map (\<lambda>m. if m < Suc n then xs ! m + ys ! m else xs ! m) [0..<length xs] ! i"
      using i n by (cases "i = n") (simp_all add: nth_list_update)
  qed simp
  finally show ?case .
qed

lemma add_months_nth:
  "length xs = 12 \<Longrightarrow> add_months xs ys = map (\<lambda>m. xs ! m + ys ! m) [0..<12]"
  unfolding add_months_def by (simp add: add_months_upto)

lemma length_add_months: "length (add_months xs ys) = length xs"
proof -
  have "length (fold (\<lambda>m zs. zs[m := zs ! m + ys ! m]) ms xs) = length xs" for ms
    by (induction ms arbitrary: xs) auto
  then show ?thesis by (simp add: add_months_def)
qed

lemma FLT_MAX_value: "FLT_MAX = 340282346638528859811704183484516925440"
  by (simp add: FLT_MAX_def)

lemma FLT_MAX_pos: "0 < FLT_MAX"
  by (simp add: FLT_MAX_def)

lemma thread_loop_done:
  "length records \<le> idx \<Longrightarrow> thread_loop records stride idx sh = Some sh"
  by (subst thread_loop.simps) simp

lemma thread_loop_step:
  "idx < length records \<Longrightarrow>
   thread_loop records stride idx sh =
   thread_loop records stride (idx + stride) (accumulate sh (records ! idx))"
  by (subst thread_loop.simps) simp

lemma combine_sel [simp]:
  "sh_temp_sum (combine a b) = sh_temp_sum a + sh_temp_sum b"
  "sh_temp_min (combine a b) = min (sh_temp_min a) (sh_temp_min b)"
  "sh_temp_max (combine a b) = max (sh_temp_max a) (sh_temp_max b)"
  "sh_temp_count (combine a b) = sh_temp_count a + sh_temp_count b"
  "sh_precip_sum (combine a b) = sh_precip_sum a + sh_precip_sum b"
  "sh_precip_count (combine a b) = sh_precip_count a + sh_precip_count b"
  "sh_monthly_temp (combine a b) = add_months (sh_monthly_temp a) (sh_monthly_temp b)"
  "sh_monthly_count (combine a b) = add_months (sh_monthly_count a) (sh_monthly_count b)"
  by (simp_all add: combine_def)

lemma add_months_commute:
  fixes xs :: "'a::ab_semigroup_add list"
  shows "length xs = 12 \<Longrightarrow> length ys = 12 \<Longrightarrow> add_months xs ys = add_months ys xs"
  by (simp add: add_months_nth add.commute)

lemma add_months_assoc:
  fixes xs :: "'a::semigroup_add list"
  shows "length xs = 12 \<Longrightarrow> length ys = 12 \<Longrightarrow>
    add_months (add_months xs ys) zs = add_months xs (add_months ys zs)"
  by (simp add: add_months_nth length_add_months add.assoc)

lemma add_months_zero:
  fixes xs :: "'a::monoid_add list"
  shows "length xs = 12 \<Longrightarrow> add_months xs (replicate 12 0) = xs"
    and "length xs = 12 \<Longrightarrow> add_months (replicate 12 0) xs = xs"
  by (auto simp add: add_months_nth list_eq_iff_nth_eq)

subsection \<open>Scenario A\<close>

lemma scenario_a_left:
  "thread_loop [rec_temp 10] 1 0 init_shared = Some (accumulate init_shared (rec_temp 10))"
  by (simp add: thread_loop_step thread_loop_done)

lemma scenario_a_right:
  "thread_loop [rec_temp 20, rec_temp 30] 1 0 init_shared =
   Some (accumulate (accumulate init_shared (rec_temp 20)) (rec_temp 30))"
  by (simp add: thread_loop_step thread_loop_done)

lemma scenario_a_values:
  "sh_temp_count (combine (accumulate init_shared (rec_temp 10))
      (accumulate (accumulate init_shared (rec_temp 20)) (rec_temp 30))) = 3"
  "sh_temp_sum (combine (accumulate init_shared (rec_temp 10))
      (accumulate (accumulate init_shared (rec_temp 20)) (rec_temp 30))) = 60"
  "sh_temp_min (combine (accumulate init_shared (rec_temp 10))
      (accumulate (accumulate init_shared (rec_temp 20)) (rec_temp 30))) = 10"
  "sh_temp_max (combine (accumulate init_shared (rec_temp 10))
      (accumulate (accumulate init_shared (rec_temp 20)) (rec_temp 30))) = 30"
  by (simp_all add: accumulate_def init_shared_def rec_temp_def FLT_MAX_value Let_def)

text \<open>
  Claim C1.  The combine operation of the block-level reduction adds the counts and
  the sums of its two arguments, takes the smaller minimum and the larger maximum, and
  adds the precipitation sum and count and each of the twelve monthly sums and counts.
  Folding the records with temperatures 10 and 20, 30 separately (one thread each, from
  the initial accumulator) and combining the two results gives count 3, sum 60,
  minimum 10 and maximum 30.
\<close>

theorem combine_fields:
  assumes "length (sh_monthly_temp a) = 12" and "length (sh_monthly_count a) = 12"
    and "length (sh_monthly_temp b) = 12" and "length (sh_monthly_count b) = 12"
  shows "sh_temp_count (combine a b) = sh_temp_count a + sh_temp_count b \<and>
         sh_temp_sum (combine a b) = sh_temp_sum a + sh_temp_sum b \<and>
         sh_temp_min (combine a b) = min (sh_temp_min a) (sh_temp_min b) \<and>
         sh_temp_max (combine a b) = max (sh_temp_max a) (sh_temp_max b) \<and>
         sh_precip_sum (combine a b) = sh_precip_sum a + sh_precip_sum b \<and>
         sh_precip_count (combine a b) = sh_precip_count a + sh_precip_count b \<and>
         sh_monthly_temp (combine a b) =
           map (\<lambda>m. sh_monthly_temp a ! m + sh_monthly_temp b ! m) [0..<12] \<and>
         sh_monthly_count (combine a b) =
           map (\<lambda>m. sh_monthly_count a ! m + sh_monthly_count b ! m) [0..<12] \<and>
         (\<exists>x y. thread_loop [rec_temp 10] 1 0 init_shared = Some x \<and>
                thread_loop [rec_temp 20, rec_temp 30] 1 0 init_shared = Some y \<and>
                sh_temp_count (combine x y) = 3 \<and> sh_temp_sum (combine x y) = 60 \<and>
                sh_temp_min (combine x y) = 10 \<and> sh_temp_max (combine x y) = 30)"
proof -
  have "\<exists>x y. thread_loop [rec_temp 10] 1 0 init_shared = Some x \<and>
                thread_loop [rec_temp 20, rec_temp 30] 1 0 init_shared = Some y \<and>
                sh_temp_count (combine x y) = 3 \<and> sh_temp_sum (combine x y) = 60 \<and>
                sh_temp_min (combine x y) = 10 \<and> sh_temp_max (combine x y) = 30"
    using scenario_a_left scenario_a_right scenario_a_values by blast
  then show ?thesis
    using assms by (simp add: add_months_nth)
qed

theorem combine_fields_witness:
  "length (sh_monthly_temp init_shared) = 12 \<and> length (sh_monthly_count init_shared) = 12 \<and>
   length (sh_monthly_temp (accumulate init_shared (rec_temp 10))) = 12 \<and>
   length (sh_monthly_count (accumulate init_shared (rec_temp 10))) = 12 \<and>
   sh_temp_count (combine init_shared (accumulate init_shared (rec_temp 10))) =
     sh_temp_count init_shared + sh_temp_count (accumulate init_shared (rec_temp 10)) \<and>
   sh_temp_min (combine init_shared (accumulate init_shared (rec_temp 10))) =
     min (sh_temp_min init_shared) (sh_temp_min (accumulate init_shared (rec_temp 10))) \<and>
   sh_monthly_count (combine init_shared (accumulate init_shared (rec_temp 10))) =
     map (\<lambda>m. sh_monthly_count init_shared ! m +
               sh_monthly_count (accumulate init_shared (rec_temp 10)) ! m) [0..<12]"
proof -
  have l: "length (sh_monthly_temp init_shared) = 12"
    "length (sh_monthly_count init_shared) = 12"
    "length (sh_monthly_temp (accumulate init_shared (rec_temp 10))) = 12"
    "length (sh_monthly_count (accumulate init_shared (rec_temp 10))) = 12"
    by (simp_all add: init_shared_def accumulate_def rec_temp_def Let_def)
  show ?thesis
    using l combine_fields [OF l] by simp
qed

section \<open>Commutativity, associativity and identity of combine\<close>

lemma combine_exact_commute:
  "well_formed a \<Longrightarrow> well_formed b \<Longrightarrow> exact_fields (combine a b) = exact_fields (combine b a)"
  by (simp add: exact_fields_def well_formed_def add_months_commute min.commute max.commute)

lemma combine_exact_assoc:
  "well_formed a \<Longrightarrow> well_formed b \<Longrightarrow>
   exact_fields (combine (combine a b) c) = exact_fields (combine a (combine b c))"
  by (simp add: exact_fields_def well_formed_def add_months_assoc min.assoc max.assoc)

lemma combine_init_right: "well_formed a \<Longrightarrow> combine a init_shared = a"
  by (simp add: combine_def init_shared_def well_formed_def add_months_zero)

lemma combine_init_left: "well_formed a \<Longrightarrow> combine init_shared a = a"
  by (simp add: combine_def init_shared_def well_formed_def add_months_zero)

lemma well_formed_init: "well_formed init_shared"
  using FLT_MAX_pos by (simp add: well_formed_def init_shared_def)

lemma well_formed_accumulate: "well_formed a \<Longrightarrow> well_formed (accumulate a r)"
  by (auto simp add: well_formed_def accumulate_def Let_def)

lemma well_formed_combine: "well_formed a \<Longrightarrow> well_formed b \<Longrightarrow> well_formed (combine a b)"
  by (auto simp add: well_formed_def length_add_months)

text \<open>
  Claim C7.  On the counters, the minimum and the maximum (the fields C computes
  exactly) combine is commutative and associative.  The initial accumulator of a
  thread (count 0, sum 0, minimum \<open>FLT_MAX\<close>, maximum \<open>-FLT_MAX\<close>) is a left and right
  identity of combine on every well-formed accumulator, that is, on every accumulator
  with twelve monthly entries whose minimum and maximum are finite floats; the initial
  accumulator is well-formed, and \<open>accumulate\<close> and combine keep accumulators
  well-formed.  A thread whose first index is already beyond the records leaves the
  loop with the initial accumulator, which therefore combines as a no-op.
\<close>

theorem combine_monoid:
  assumes "well_formed a" and "well_formed b" and "well_formed c"
    and "length records \<le> idx"
  shows "exact_fields (combine a b) = exact_fields (combine b a) \<and>
         exact_fields (combine (combine a b) c) = exact_fields (combine a (combine b c)) \<and>
         combine a init_shared = a \<and> combine init_shared a = a \<and>
         thread_loop records stride idx init_shared = Some init_shared \<and>
         well_formed init_shared \<and> well_formed (accumulate a r) \<and> well_formed (combine a b)"
proof (intro conjI)
  show "exact_fields (combine a b) = exact_fields (combine b a)"
    using assms(1,2) by (rule combine_exact_commute)
  show "exact_fields (combine (combine a b) c) = exact_fields (combine a (combine b c))"
    using assms(1,2) by (rule combine_exact_assoc)
  show "combine a init_shared = a" "combine init_shared a = a"
    using assms by (simp_all add: combine_init_right combine_init_left)
  show "thread_loop records stride idx init_shared = Some init_shared"
    using assms by (simp add: thread_loop_done)
  show "well_formed init_shared" "well_formed (accumulate a r)" "well_formed (combine a b)"
    using assms by (simp_all add: well_formed_init well_formed_accumulate well_formed_combine)
qed

theorem combine_monoid_witness:
  "well_formed init_shared \<and> well_formed (accumulate init_shared (rec_temp 10)) \<and>
   well_formed (accumulate init_shared (rec_temp 20)) \<and>
   length [rec_temp 10] \<le> (1::nat) \<and>
   combine (accumulate init_shared (rec_temp 10)) init_shared = accumulate init_shared (rec_temp 10) \<and>
   exact_fields (combine (accumulate init_shared (rec_temp 10)) (accumulate init_shared (rec_temp 20))) =
   exact_fields (combine (accumulate init_shared (rec_temp 20)) (accumulate init_shared (rec_temp 10))) \<and>
   thread_loop [rec_temp 10] 2 1 init_shared = Some init_shared"
proof -
  have w: "well_formed (accumulate init_shared (rec_temp 10))"
    "well_formed (accumulate init_shared (rec_temp 20))" "well_formed init_shared"
    by (simp_all add: well_formed_accumulate well_formed_init)
  have l: "length [rec_temp 10] \<le> (1::nat)" by simp
  show ?thesis
    using w l combine_monoid [OF w(1) w(2) w(3) l, of 2] by simp
qed

section \<open>The kernel computes the statistics of all records\<close>

lemma temps_simps [simp]:
  "temps {#} = {#}"
  "temps (M + N) = temps M + temps N"
  "temps (add_mset r M) = (if valid_temp r then add_mset (avg_temp r) (temps M) else temps M)"
  by (simp_all add: temps_def)

lemma month_temps_simps [simp]:
  "month_temps m {#} = {#}"
  "month_temps m (M + N) = month_temps m M + month_temps m N"
  "month_temps m (add_mset r M) =
     (if valid_temp r \<and> month r = int m then add_mset (avg_temp r) (month_temps m M)
      else month_temps m M)"
  by (simp_all add: month_temps_def)

lemma precips_simps [simp]:
  "precips {#} = {#}"
  "precips (M + N) = precips M + precips N"
  "precips (add_mset r M) =
     (if valid_precip r then add_mset (precipitation r) (precips M) else precips M)"
  by (simp_all add: precips_def)

lemma least_simps [simp]:
  "least s {#} = s"
  "least s (add_mset t T) = min (least s T) t"
  "least s (T + U) = min (least s T) (least s U)"
proof -
  show "least s {#} = s"
    by (simp add: least_def)
  have "Min (insert t (insert s (set_mset T))) = min t (Min (insert s (set_mset T)))"
    by (rule Min_insert) simp_all
  then show "least s (add_mset t T) = min (least s T) t"
    by (simp only: least_def set_mset_add_mset_insert insert_commute [of s t] min.commute)
  have "insert s (set_mset T \<union> set_mset U) = insert s (set_mset T) \<union> insert s (set_mset U)"
    by auto
  moreover have "Min (insert s (set_mset T) \<union> insert s (set_mset U)) =
      min (Min (insert s (set_mset T))) (Min (insert s (set_mset U)))"
    by (rule Min_Un) simp_all
  ultimately show "least s (T + U) = min (least s T) (least s U)"
    by (simp only: least_def set_mset_union)
qed

lemma greatest_simps [simp]:
  "greatest s {#} = s"
  "greatest s (add_mset t T) = max (greatest s T) t"
  "greatest s (T + U) = max (greatest s T) (greatest s U)"
proof -
  show "greatest s {#} = s"
    by (simp add: greatest_def)
  have "Max (insert t (insert s (set_mset T))) = max t (Max (insert s (set_mset T)))"
    by (rule Max_insert) simp_all
  then show "greatest s (add_mset t T) = max (greatest s T) t"
    by (simp only: greatest_def set_mset_add_mset_insert insert_commute [of s t] max.commute)
  have "insert s (set_mset T \<union> set_mset U) = insert s (set_mset T) \<union> insert s (set_mset U)"
    by auto
  moreover have "Max (insert s (set_mset T) \<union> insert s (set_mset U)) =
      max (Max (insert s (set_mset T))) (Max (insert s (set_mset U)))"
    by (rule Max_Un) simp_all
  ultimately show "greatest s (T + U) = max (greatest s T) (greatest s U)"
    by (simp only: greatest_def set_mset_union)
qed

lemma least_le: "least s T \<le> s"
  by (simp add: least_def)

lemma greatest_ge: "s \<le> greatest s T"
  by (simp add: greatest_def)




lemma summary_empty: "summary {#} = init_shared"
  by (simp add: summary_def init_shared_def list_eq_iff_nth_eq)

lemma summary_combine: "combine (summary M) (summary N) = summary (M + N)"
  by (simp add: combine_def summary_def add_months_nth)

lemma map_upt_update:
  "k < n \<Longrightarrow> (map f [0..<n])[k := v] = map (f(k := v)) [0..<n]"
  by (auto simp add: list_eq_iff_nth_eq nth_list_update)

lemma summary_accumulate: "accumulate (summary M) r = summary (add_mset r M)"
proof -
  consider (none) "\<not> valid_temp r"
    | (inside) "valid_temp r" "0 \<le> month r \<and> month r < 12"
    | (outside) "valid_temp r" "\<not> (0 \<le> month r \<and> month r < 12)"
    by blast
  then show ?thesis
  proof cases
    case none
    then show ?thesis
      by (simp add: accumulate_def summary_def Let_def)
  next
    case inside
    then have k: "nat (month r) < 12" and eq: "\<And>m. (month r = int m) = (m = nat (month r))"
      by auto
    show ?thesis
      using inside k
      by (auto simp add: accumulate_def summary_def Let_def map_upt_update eq
          list_eq_iff_nth_eq)
  next
    case outside
    then have ne: "\<And>m. m < 12 \<Longrightarrow> month r \<noteq> int m"
      by auto
    have rng: "(0 \<le> month r \<and> month r < 12) = False"
      using outside by simp
    show ?thesis
      using outside(1) ne
      by (simp add: accumulate_def summary_def Let_def list_eq_iff_nth_eq rng)
  qed
qed

lemma finite_owned [simp]: "finite (owned stride n idx)"
  by (rule finite_subset [of _ "{..<n}"]) (auto simp: owned_def)

lemma owned_done: "n \<le> idx \<Longrightarrow> owned stride n idx = {}"
  by (auto simp: owned_def)

lemma owned_step:
  assumes "0 < stride" "idx < n"
  shows "owned stride n idx = insert idx (owned stride n (idx + stride))"
    and "idx \<notin> owned stride n (idx + stride)"
proof -
  show "idx \<notin> owned stride n (idx + stride)"
    using assms by (simp add: owned_def)
  have "idx + stride \<le> i" if "idx \<le> i" "i \<noteq> idx" "i mod stride = idx mod stride" for i
  proof -
    from that have "idx < i" by simp
    moreover have "stride dvd i - idx"
      using that by (metis mod_eq_dvd_iff_nat)
    ultimately have "stride \<le> i - idx"
      by (simp add: dvd_imp_le)
    then show ?thesis using \<open>idx < i\<close> by simp
  qed
  then show "owned stride n idx = insert idx (owned stride n (idx + stride))"
    using assms by (auto simp: owned_def)
qed

lemma thread_loop_summary:
  assumes "0 < stride"
  shows "thread_loop records stride idx (summary M) =
         Some (summary (M + image_mset ((!) records) (mset_set (owned stride (length records) idx))))"
proof (induction "length records - idx" arbitrary: idx M rule: less_induct)
  case less
  show ?case
  proof (cases "idx < length records")
    case False
    then show ?thesis
      by (simp add: thread_loop_done owned_done)
  next
    case True
    have "thread_loop records stride idx (summary M) =
          thread_loop records stride (idx + stride) (summary (add_mset (records ! idx) M))"
      using True by (simp add: thread_loop_step summary_accumulate)
    also have "\<dots> = Some (summary (add_mset (records ! idx) M +
        image_mset ((!) records) (mset_set (owned stride (length records) (idx + stride)))))"
      using True assms by (intro less) simp
    also have "\<dots> = Some (summary (M +
        image_mset ((!) records) (mset_set (owned stride (length records) idx))))"
      using owned_step [OF assms True] by simp
    finally show ?thesis .
  qed
qed

lemma owned_residue:
  "owned stride n idx = {i \<in> {..<n}. i mod stride = idx}" if "idx < stride"
proof -
  have "idx \<le> i" if "i mod stride = idx" for i
    using that mod_less_eq_dividend [of i stride] by simp
  then show ?thesis
    using that by (auto simp: owned_def)
qed

lemma those_map_Some: "those (map (\<lambda>x. Some (f x)) xs) = Some (map f xs)"
  by (induction xs) simp_all

lemma length_reduce_step [simp]: "length (reduce_step s sh) = length sh"
  by (simp add: reduce_step_def)

lemma reduce_step_nth:
  "tid < length sh \<Longrightarrow>
   reduce_step s sh ! tid = (if tid < s then combine (sh ! tid) (sh ! (tid + s)) else sh ! tid)"
  by (simp add: reduce_step_def)

lemma length_block_reduce [simp]: "length (block_reduce s sh) = length sh"
  by (induction s sh rule: block_reduce.induct) (subst block_reduce.simps, simp)

lemma sum_halves:
  fixes f :: "nat \<Rightarrow> 'a::comm_monoid_add"
  shows "(\<Sum>i<s. f i + f (i + s)) = (\<Sum>i<2 * s. f i)"
proof -
  have "(\<Sum>i<2 * s. f i) = sum f {0..<s} + sum f {0 + s..<s + s}"
    by (simp add: lessThan_atLeast0 sum.atLeastLessThan_concat mult_2)
  also have "sum f {0 + s..<s + s} = (\<Sum>i = 0..<s. f (i + s))"
    by (rule sum.shift_bounds_nat_ivl)
  finally show ?thesis
    by (simp add: sum.distrib lessThan_atLeast0)
qed

lemma block_reduce_pow2:
  "2 * 2 ^ j \<le> length sh \<Longrightarrow> (\<And>i. i < 2 * 2 ^ j \<Longrightarrow> sh ! i = summary (M i)) \<Longrightarrow>
   block_reduce (2 ^ j) sh ! 0 = summary (\<Sum>i<2 * 2 ^ j. M i)"
proof (induction j arbitrary: sh M)
  case 0
  have "block_reduce (2 ^ 0) sh = reduce_step 1 sh"
    by (simp add: block_reduce.simps [of "Suc 0"] block_reduce.simps [of 0])
  moreover have "0 < length sh"
    using 0(1) by (cases sh) simp_all
  then have "reduce_step 1 sh ! 0 = combine (sh ! 0) (sh ! 1)"
    by (simp add: reduce_step_nth)
  moreover have "sh ! 0 = summary (M 0)" "sh ! 1 = summary (M 1)"
    using 0(2) [of 0] 0(2) [of 1] by simp_all
  moreover have "(\<Sum>i<2 * 2 ^ 0. M i) = M 0 + M 1"
    by (simp add: lessThan_Suc numeral_2_eq_2)
  ultimately show ?case
    by (simp only: summary_combine)
next
  case (Suc j)
  let ?s = "2 * 2 ^ j :: nat"
  let ?sh = "reduce_step ?s sh"
  have step: "block_reduce (2 ^ Suc j) sh = block_reduce (2 ^ j) ?sh"
    by (subst block_reduce.simps) simp
  have "?sh ! i = summary (M i + M (i + ?s))" if "i < ?s" for i
  proof -
    have "i < length sh" "i + ?s < 2 * 2 ^ Suc j" "i < 2 * 2 ^ Suc j"
      using that Suc.prems(1) by simp_all
    then show ?thesis
      using that Suc.prems(2) by (simp add: reduce_step_nth summary_combine)
  qed
  moreover have "?s \<le> length ?sh"
    using Suc.prems(1) by simp
  ultimately have "block_reduce (2 ^ j) ?sh ! 0 = summary (\<Sum>i<?s. M i + M (i + ?s))"
    by (rule Suc.IH [rotated])
  moreover have "(\<Sum>i<?s. M i + M (i + ?s)) = (\<Sum>i<2 * ?s. M i)"
    by (rule sum_halves)
  moreover have "2 * ?s = 2 * 2 ^ Suc j"
    by simp
  ultimately show ?case
    by (simp only: step)
qed

lemma run_threads_summary:
  assumes "0 < B" "0 < G"
  shows "run_threads records B G b =
         Some (map (\<lambda>tid. summary (share records (B * G) (b * B + tid))) [0..<B])"
proof -
  have "thread_loop records (B * G) idx init_shared = Some (summary (share records (B * G) idx))"
    for idx
    using assms thread_loop_summary [of "B * G" records idx "{#}"]
    by (simp add: summary_empty share_def)
  then show ?thesis
    by (simp add: run_threads_def those_map_Some)
qed

lemma block_result_summary:
  assumes "B = 2 ^ k" "0 < G"
  shows "block_result records B G b = Some (summary (\<Sum>tid<B. share records (B * G) (b * B + tid)))"
proof -
  let ?sh = "map (\<lambda>tid. summary (share records (B * G) (b * B + tid))) [0..<B]"
  have B: "0 < B" using assms by simp
  have run: "run_threads records B G b = Some ?sh"
    using B assms(2) by (rule run_threads_summary)
  have "block_reduce (B div 2) ?sh ! 0 = summary (\<Sum>tid<B. share records (B * G) (b * B + tid))"
  proof (cases k)
    case 0
    then have "B = 1" using assms by simp
    then show ?thesis by (simp add: block_reduce.simps [of 0])
  next
    case (Suc j)
    then have B2: "B = 2 * 2 ^ j" and half: "B div 2 = 2 ^ j"
      using assms by simp_all
    have "block_reduce (2 ^ j) ?sh ! 0 =
          summary (\<Sum>tid<2 * 2 ^ j. share records (B * G) (b * B + tid))"
    proof (rule block_reduce_pow2 [where M = "\<lambda>tid. share records (B * G) (b * B + tid)"])
      show "2 * 2 ^ j \<le> length ?sh"
        by (simp add: B2)
      show "?sh ! i = summary (share records (B * G) (b * B + i))" if "i < 2 * 2 ^ j" for i
        using that by (simp add: B2)
    qed
    then show ?thesis
      by (simp only: half B2 [symmetric])
  qed
  moreover have "length (block_reduce (B div 2) ?sh) = B"
    by simp
  ultimately have "\<exists>rest. block_reduce (B div 2) ?sh =
      summary (\<Sum>tid<B. share records (B * G) (b * B + tid)) # rest"
    using B by (cases "block_reduce (B div 2) ?sh") auto
  then show ?thesis
    by (auto simp add: block_result_def run)
qed

lemma well_formed_summary: "well_formed (summary M)"
  by (simp add: well_formed_def summary_def least_le greatest_ge)

lemma DBL_MAX_gt_FLT_MAX: "FLT_MAX < DBL_MAX"
  by (simp add: FLT_MAX_def DBL_MAX_def)

lemma thread0_writes_init:
  "well_formed s \<Longrightarrow> thread0_writes init_outputs s = as_outputs s"
  using DBL_MAX_gt_FLT_MAX
  by (simp add: thread0_writes_def init_outputs_def as_outputs_def well_formed_def
      fminf_df_def fmaxf_df_def add_months_zero)

lemma thread0_writes_next:
  "well_formed a \<Longrightarrow> thread0_writes (as_outputs a) s = as_outputs (combine a s)"
  by (simp add: thread0_writes_def as_outputs_def well_formed_def fminf_df_def fmaxf_df_def)

lemma fold_blocks:
  assumes "\<And>b out. F b (Some out) = Some (thread0_writes out (summary (T b)))"
  shows "fold F order (Some (as_outputs (summary M))) =
         Some (as_outputs (summary (M + sum_list (map T order))))"
proof (induction order arbitrary: M)
  case Nil
  then show ?case by simp
next
  case (Cons b order)
  have "fold F (b # order) (Some (as_outputs (summary M))) =
        fold F order (Some (as_outputs (summary (M + T b))))"
    by (simp add: assms thread0_writes_next well_formed_summary summary_combine)
  then show ?case
    by (simp add: Cons.IH add.assoc)
qed

lemma kernel_blocks:
  assumes "\<And>b. block_result records B G b = Some (summary (T b))" and "order \<noteq> []"
  shows "process_weather_records records B G order init_outputs =
         Some (as_outputs (summary (sum_list (map T order))))"
proof -
  let ?F = "\<lambda>b acc. case acc of None \<Rightarrow> None
                 | Some out' \<Rightarrow> (case block_result records B G b of None \<Rightarrow> None
                       | Some s0 \<Rightarrow> Some (thread0_writes out' s0))"
  obtain b rest where order: "order = b # rest"
    using assms(2) by (cases order) auto
  have F: "?F b (Some out) = Some (thread0_writes out (summary (T b)))" for b out
    by (simp add: assms(1))
  have "fold ?F order (Some init_outputs) = fold ?F rest (Some (as_outputs (summary (T b))))"
    unfolding order by (simp add: assms(1) thread0_writes_init well_formed_summary)
  also have "\<dots> = Some (as_outputs (summary (T b + sum_list (map T rest))))"
    using F by (rule fold_blocks)
  finally show ?thesis
    by (simp add: process_weather_records_def order)
qed

lemma sum_blocks_threads:
  fixes F :: "nat \<Rightarrow> 'a::comm_monoid_add"
  shows "(\<Sum>b<G. \<Sum>tid<B. F (b * B + tid)) = (\<Sum>t<B * G. F t)"
proof (induction G)
  case 0
  then show ?case by simp
next
  case (Suc G)
  have "(\<Sum>t<B * Suc G. F t) = sum F {0..<B * G} + sum F {0 + B * G..<B + B * G}"
    by (simp add: lessThan_atLeast0 sum.atLeastLessThan_concat add.commute)
  also have "sum F {0 + B * G..<B + B * G} = (\<Sum>tid = 0..<B. F (tid + B * G))"
    by (rule sum.shift_bounds_nat_ivl)
  finally show ?case
    using Suc by (simp add: lessThan_atLeast0 add.commute mult.commute)
qed

lemma residue_classes:
  assumes "0 < s"
  shows "(\<Sum>t<s. filter_mset (\<lambda>i. i mod s = t) N) = (N :: nat multiset)"
proof (induction N)
  case empty
  then show ?case by simp
next
  case (add x N)
  have "(\<Sum>t<s. filter_mset (\<lambda>i. i mod s = t) (add_mset x N)) =
        (\<Sum>t<s. (if x mod s = t then {#x#} else {#}) + filter_mset (\<lambda>i. i mod s = t) N)"
    by (intro sum.cong) auto
  also have "\<dots> = (\<Sum>t<s. if x mod s = t then {#x#} else {#}) + N"
    by (simp add: sum.distrib add)
  also have "(\<Sum>t<s. if x mod s = t then {#x#} else {#}) = {#x#}"
    using assms by (simp add: sum.delta')
  finally show ?case by simp
qed

lemma image_mset_sum:
  "image_mset f (\<Sum>t<(s::nat). A t) = (\<Sum>t<s. image_mset f (A t))"
  by (induction s) (simp_all add: lessThan_Suc)

lemma shares_cover:
  assumes "0 < s"
  shows "(\<Sum>t<s. share records s t) = mset records"
proof -
  let ?N = "mset_set {..<length records}"
  have "share records s t = image_mset ((!) records) (filter_mset (\<lambda>i. i mod s = t) ?N)"
    if "t < s" for t
    using that by (simp add: share_def owned_residue)
  then have "(\<Sum>t<s. share records s t) =
      (\<Sum>t<s. image_mset ((!) records) (filter_mset (\<lambda>i. i mod s = t) ?N))"
    by (intro sum.cong) simp_all
  also have "\<dots> = image_mset ((!) records) (\<Sum>t<s. filter_mset (\<lambda>i. i mod s = t) ?N)"
    by (simp only: image_mset_sum)
  also have "\<dots> = image_mset ((!) records) ?N"
    using assms by (simp only: residue_classes)
  also have "?N = mset [0..<length records]"
    by (simp add: lessThan_atLeast0)
  also have "image_mset ((!) records) (mset [0..<length records]) =
             mset (map ((!) records) [0..<length records])"
    by simp
  finally show ?thesis
    by (simp add: map_nth)
qed

lemma kernel_summary:
  assumes "B = 2 ^ k" "0 < G" "distinct order" "set order = {..<G}"
  shows "process_weather_records records B G order init_outputs =
         Some (as_outputs (summary (mset records)))"
proof -
  let ?T = "\<lambda>b. \<Sum>tid<B. share records (B * G) (b * B + tid)"
  have ne: "order \<noteq> []"
  proof
    assume "order = []"
    then have "{..<G} = {}" using assms(4) by simp
    then have "\<not> 0 < G" by (simp add: lessThan_empty_iff)
    then show False using assms(2) by simp
  qed
  have blocks: "\<And>b. block_result records B G b = Some (summary (?T b))"
    using assms(1,2) by (rule block_result_summary)
  have "sum_list (map ?T order) = sum ?T (set order)"
    using assms(3) by (rule sum_list_distinct_conv_sum_set)
  also have "\<dots> = (\<Sum>b<G. ?T b)"
    by (simp only: assms(4))
  also have "\<dots> = (\<Sum>t<B * G. share records (B * G) t)"
    by (rule sum_blocks_threads)
  also have "\<dots> = mset records"
  proof (rule shares_cover)
    show "0 < B * G" using assms(1,2) by simp
  qed
  finally have total: "sum_list (map ?T order) = mset records" .
  have "process_weather_records records B G order init_outputs =
      Some (as_outputs (summary (sum_list (map ?T order))))"
    by (rule kernel_blocks [where T = ?T, OF blocks ne])
  then show ?thesis
    by (simp only: total)
qed


lemma city_of_empty: "reset_stats c = city_of c {#}"
  by (simp add: reset_stats_def city_of_def list_eq_iff_nth_eq)

lemma city_of_record: "process_record (city_of c M) r = city_of c (add_mset r M)"
proof -
  have mn: "(if t < m then t else m) = min m t" for t m :: real
    by (auto simp: min_def)
  have mx: "(if m < t then t else m) = max m t" for t m :: real
    by (auto simp: max_def)
  consider (none) "\<not> valid_temp r"
    | (inside) "valid_temp r" "0 \<le> month r \<and> month r < 12"
    | (outside) "valid_temp r" "\<not> (0 \<le> month r \<and> month r < 12)"
    by blast
  then show ?thesis
  proof cases
    case none
    then show ?thesis
      by (simp add: process_record_def add_precipitation_def city_of_def Let_def)
  next
    case inside
    then have k: "nat (month r) < 12" and eq: "\<And>m. (month r = int m) = (m = nat (month r))"
      by auto
    show ?thesis
      using inside k
      by (auto simp add: process_record_def add_temperature_def add_precipitation_def
          city_of_def Let_def mn mx map_upt_update eq list_eq_iff_nth_eq)
  next
    case outside
    then have ne: "\<And>m. m < 12 \<Longrightarrow> month r \<noteq> int m"
      by auto
    have rng: "(0 \<le> month r \<and> month r < 12) = False"
      using outside by simp
    show ?thesis
      using outside(1) ne
      by (simp add: process_record_def add_temperature_def add_precipitation_def
          city_of_def Let_def mn mx list_eq_iff_nth_eq rng)
  qed
qed

lemma city_of_foldl: "foldl process_record (city_of c M) rs = city_of c (M + mset rs)"
  by (induction rs arbitrary: M) (simp_all add: city_of_record)

lemma serial_summary: "foldl process_record (reset_stats c) rs = city_of c (mset rs)"
  by (simp add: city_of_empty city_of_foldl)


section \<open>Record-level reduction against the single-threaded fold\<close>







section \<open>The invariant of the accumulators\<close>













section \<open>The local reduction of the serial loop\<close>

lemma get_field_examples:
  "get_field line_ok 4 64 = ''18.5''"
  "get_field line_ok 2 32 = ''2024-01-15''"
  "get_field line_no_temp 4 64 = []"
  "get_field line_bad_temp 4 64 = ''abc''"
  "get_field line_bad_temp 7 64 = []"
  "get_field line_bad_date 2 32 = ''17/01/2024''"
  "get_field line_bad_date 4 64 = ''20''"
  by (simp_all add: get_field_def line_ok_def line_no_temp_def line_bad_temp_def line_bad_date_def
      eval_nat_numeral)

lemma get_month_examples:
  "get_month ''2024-01-15'' = 0"
  "get_month ''17/01/2024'' = - 1"
  "get_month ''2024-13-01'' = 12"
  "get_month ''2024'' = - 1"
  by (simp_all add: get_month_def atoi_def split_sign_def isspace_def isdigit_def digits_value_def)

lemma atof_decimal_examples:
  "atof_decimal ''abc'' = 0"
  "atof_decimal ''18.5'' = 37 / 2"
  "atof_decimal ''20'' = 20"
  by (simp_all add: atof_decimal_def split_sign_def isspace_def isdigit_def digits_value_def)

lemma add_temperature_sel:
  "record_count (add_temperature c m t) = record_count c"
  "temp_count (add_temperature c m t) = temp_count c + 1"
  "temp_sum (add_temperature c m t) = temp_sum c + t"
  "temp_min (add_temperature c m t) = min (temp_min c) t"
  "temp_max (add_temperature c m t) = max (temp_max c) t"
  "precip_sum (add_temperature c m t) = precip_sum c"
  "precip_count (add_temperature c m t) = precip_count c"
  by (auto simp add: add_temperature_def Let_def)

lemma add_temperature_months:
  "monthly_temp_sum (add_temperature c m t) =
     (if 0 \<le> m \<and> m < 12 then (monthly_temp_sum c)[nat m := monthly_temp_sum c ! nat m + t]
      else monthly_temp_sum c)"
  "monthly_temp_count (add_temperature c m t) =
     (if 0 \<le> m \<and> m < 12 then (monthly_temp_count c)[nat m := monthly_temp_count c ! nat m + 1]
      else monthly_temp_count c)"
  by (simp_all add: add_temperature_def Let_def)

lemma add_precipitation_sel:
  "record_count (add_precipitation c p) = record_count c"
  "temp_count (add_precipitation c p) = temp_count c"
  "temp_sum (add_precipitation c p) = temp_sum c"
  "temp_min (add_precipitation c p) = temp_min c"
  "temp_max (add_precipitation c p) = temp_max c"
  "monthly_temp_sum (add_precipitation c p) = monthly_temp_sum c"
  "monthly_temp_count (add_precipitation c p) = monthly_temp_count c"
  by (simp_all add: add_precipitation_def)

lemma process_line_record_count:
  "record_count (process_line month_of atof c line) = record_count c + 1"
  by (simp add: process_line_def Let_def add_temperature_sel add_precipitation_sel)

lemma process_line_absent:
  assumes "\<not> has_temperature line"
  shows "temp_count (process_line month_of atof c line) = temp_count c"
    and "temp_sum (process_line month_of atof c line) = temp_sum c"
    and "temp_min (process_line month_of atof c line) = temp_min c"
    and "temp_max (process_line month_of atof c line) = temp_max c"
    and "monthly_temp_sum (process_line month_of atof c line) = monthly_temp_sum c"
    and "monthly_temp_count (process_line month_of atof c line) = monthly_temp_count c"
  using assms
  by (simp_all add: process_line_def Let_def has_temperature_def add_precipitation_sel)

lemma process_line_present:
  assumes "has_temperature line"
  shows "temp_count (process_line month_of atof c line) = temp_count c + 1"
    and "temp_sum (process_line month_of atof c line) = temp_sum c + atof (get_field line 4 64)"
    and "temp_min (process_line month_of atof c line) =
           min (temp_min c) (atof (get_field line 4 64))"
    and "temp_max (process_line month_of atof c line) =
           max (temp_max c) (atof (get_field line 4 64))"
  using assms
  by (simp_all add: process_line_def Let_def has_temperature_def add_precipitation_sel
      add_temperature_sel)

lemma process_line_months:
  assumes "has_temperature line"
  shows "monthly_temp_sum (process_line month_of atof c line) =
          (if 0 \<le> month_of (get_field line 2 32) \<and> month_of (get_field line 2 32) < 12
           then (monthly_temp_sum c)[nat (month_of (get_field line 2 32)) :=
                   monthly_temp_sum c ! nat (month_of (get_field line 2 32)) +
                   atof (get_field line 4 64)]
           else monthly_temp_sum c)"
    and "monthly_temp_count (process_line month_of atof c line) =
          (if 0 \<le> month_of (get_field line 2 32) \<and> month_of (get_field line 2 32) < 12
           then (monthly_temp_count c)[nat (month_of (get_field line 2 32)) :=
                   monthly_temp_count c ! nat (month_of (get_field line 2 32)) + 1]
           else monthly_temp_count c)"
  using assms
  by (simp_all add: process_line_def Let_def has_temperature_def add_precipitation_sel
      add_temperature_months)

lemma foldl_record_count:
  "record_count (foldl (process_line month_of atof) c lines) = record_count c + int (length lines)"
  by (induction lines arbitrary: c) (simp_all add: process_line_record_count)

lemma process_line_temp_count:
  "temp_count (process_line month_of atof c line) =
   temp_count c + (if has_temperature line then 1 else 0)"
  by (simp add: process_line_absent process_line_present)

lemma foldl_temp_count:
  "temp_count (foldl (process_line month_of atof) c lines) =
   temp_count c + int (length (filter has_temperature lines))"
  by (induction lines arbitrary: c) (simp_all add: process_line_temp_count)

lemma reset_stats_sel:
  "record_count (reset_stats c) = 0" "temp_count (reset_stats c) = 0"
  "temp_sum (reset_stats c) = 0" "temp_min (reset_stats c) = DBL_MAX"
  "temp_max (reset_stats c) = - DBL_MAX"
  by (simp_all add: reset_stats_def)

lemma has_temperature_examples:
  "has_temperature line_ok" "\<not> has_temperature line_no_temp" "has_temperature line_bad_temp"
  "has_temperature line_bad_date"
  by (simp_all add: has_temperature_def get_field_examples)

text \<open>
  Claim C5 (as amended).  For all lines after the header, whatever they contain, the
  serial loop returns an accumulator (the model has no error result, as the code has
  no error path) with: \<open>record_count\<close> equal to the number of lines; \<open>temp_count\<close>
  equal to the number of lines whose temperature field is not empty.  A line with an
  empty temperature field adds one to \<open>record_count\<close> and leaves count, sum, minimum,
  maximum and the monthly arrays of the temperature unchanged.  A line with a
  non-empty temperature field adds one to \<open>temp_count\<close>, adds \<open>atof\<close> of the field to
  the sum and updates minimum and maximum, whatever the month; the monthly arrays
  change only if the month lies in 0..11.  Three lines of which the second has an
  empty temperature field give \<open>record_count = 3\<close> and \<open>temp_count = 2\<close>; a line with
  an unreadable date has month -1, touches no monthly entry and still counts its
  temperature.
\<close>

theorem local_reducer:
  "record_count (foldl (process_line month_of atof) (reset_stats c0) lines) = int (length lines) \<and>
   temp_count (foldl (process_line month_of atof) (reset_stats c0) lines) =
     int (length (filter has_temperature lines)) \<and>
   record_count (process_line month_of atof c line) = record_count c + 1 \<and>
   (if has_temperature line
    then temp_count (process_line month_of atof c line) = temp_count c + 1 \<and>
         temp_sum (process_line month_of atof c line) = temp_sum c + atof (get_field line 4 64) \<and>
         temp_min (process_line month_of atof c line) =
           min (temp_min c) (atof (get_field line 4 64)) \<and>
         temp_max (process_line month_of atof c line) =
           max (temp_max c) (atof (get_field line 4 64)) \<and>
         (if 0 \<le> month_of (get_field line 2 32) \<and> month_of (get_field line 2 32) < 12
          then monthly_temp_sum (process_line month_of atof c line) =
                 (monthly_temp_sum c)[nat (month_of (get_field line 2 32)) :=
                    monthly_temp_sum c ! nat (month_of (get_field line 2 32)) +
                    atof (get_field line 4 64)] \<and>
               monthly_temp_count (process_line month_of atof c line) =
                 (monthly_temp_count c)[nat (month_of (get_field line 2 32)) :=
                    monthly_temp_count c ! nat (month_of (get_field line 2 32)) + 1]
          else monthly_temp_sum (process_line month_of atof c line) = monthly_temp_sum c \<and>
               monthly_temp_count (process_line month_of atof c line) = monthly_temp_count c)
    else temp_count (process_line month_of atof c line) = temp_count c \<and>
         temp_sum (process_line month_of atof c line) = temp_sum c \<and>
         temp_min (process_line month_of atof c line) = temp_min c \<and>
         temp_max (process_line month_of atof c line) = temp_max c \<and>
         monthly_temp_sum (process_line month_of atof c line) = monthly_temp_sum c \<and>
         monthly_temp_count (process_line month_of atof c line) = monthly_temp_count c) \<and>
   record_count (foldl (process_line month_of atof) (reset_stats c0)
     [line_ok, line_no_temp, line_ok]) = 3 \<and>
   temp_count (foldl (process_line month_of atof) (reset_stats c0)
     [line_ok, line_no_temp, line_ok]) = 2 \<and>
   get_month (get_field line_bad_date 2 32) = - 1 \<and>
   monthly_temp_count (process_line get_month atof (reset_stats c0) line_bad_date) =
     replicate 12 0 \<and>
   temp_count (process_line get_month atof (reset_stats c0) line_bad_date) = 1"
proof -
  have gm: "get_month (get_field line_bad_date 2 32) = - 1"
    by (simp add: get_field_examples get_month_examples)
  have "monthly_temp_count (process_line get_month atof (reset_stats c0) line_bad_date) =
     replicate 12 0"
    by (simp add: process_line_months has_temperature_examples gm) (simp add: reset_stats_def)
  moreover have "temp_count (process_line get_month atof (reset_stats c0) line_bad_date) = 1"
    by (simp add: process_line_present has_temperature_examples reset_stats_sel)
  ultimately show ?thesis
    by (simp add: foldl_record_count foldl_temp_count reset_stats_sel process_line_record_count
      process_line_absent process_line_present process_line_months has_temperature_examples gm)
qed

text \<open>
  The claim as stated says that malformed fields are treated as absent.  A temperature
  field that is not a number is not empty, so it is treated as present: \<open>atof\<close>
  converts it to 0, which is counted and becomes minimum and maximum.
\<close>

theorem malformed_temperature_counterexample:
  "temp_count (foldl (process_line get_month atof_decimal) (reset_stats empty_city)
     [line_bad_temp]) = 1 \<and>
   temp_min (foldl (process_line get_month atof_decimal) (reset_stats empty_city)
     [line_bad_temp]) = 0 \<and>
   temp_max (foldl (process_line get_month atof_decimal) (reset_stats empty_city)
     [line_bad_temp]) = 0"
proof -
  have "DBL_MAX > 0" by (simp add: DBL_MAX_def)
  then show ?thesis
    by (simp add: process_line_present has_temperature_examples reset_stats_sel
        get_field_examples atof_decimal_examples)
qed

section \<open>A file that cannot be opened\<close>

text \<open>
  Claim C9.  In the OpenMP and MPI programs \<open>process_city_file\<close> returns before it
  initialises the entry when \<open>fopen\<close> fails: the entry keeps what \<open>malloc\<close> left in
  it (here \<open>record_count = 7\<close>, minimum 1) and is copied to the results like every
  other entry.  It is not the empty accumulator with \<open>record_count = 0\<close>.  The other
  files are processed as usual, and a file that opens but has no header does give the
  empty accumulator.
\<close>

theorem unopened_file_keeps_garbage:
  "process_city_file_omp get_month atof_decimal None garbage_city = garbage_city \<and>
   record_count (process_city_file_omp get_month atof_decimal None garbage_city) = 7 \<and>
   temp_min (process_city_file_omp get_month atof_decimal None garbage_city) = 1 \<and>
   process_city_file_omp get_month_mpi atof_decimal None garbage_city = garbage_city \<and>
   omp_main_loop atof_decimal [None, Some [''header'', line_ok]] [''Riyadh'', ''Jeddah'']
       [garbage_city, garbage_city] ! 0 = garbage_city\<lparr>name := ''Riyadh''\<rparr> \<and>
   record_count (omp_main_loop atof_decimal [None, Some [''header'', line_ok]]
       [''Riyadh'', ''Jeddah''] [garbage_city, garbage_city] ! 1) = 1 \<and>
   record_count (process_city_file_omp get_month atof_decimal (Some []) garbage_city) = 0"
  by (simp add: process_city_file_omp_def omp_main_loop_def garbage_city_def
      process_line_record_count reset_stats_sel)

section \<open>The record limit of the CUDA program\<close>

lemma read_records_count:
  "num_records \<le> MAX_RECORDS_PER_FILE \<Longrightarrow>
   snd (read_records atof lines h num_records) =
   min (num_records + length lines) MAX_RECORDS_PER_FILE"
  by (induction lines arbitrary: h num_records) auto

lemma read_records_take:
  "read_records atof lines h num_records =
   read_records atof (take (MAX_RECORDS_PER_FILE - num_records) lines) h num_records"
proof (induction lines arbitrary: h num_records)
  case Nil
  then show ?case by simp
next
  case (Cons line lines)
  show ?case
  proof (cases "num_records < MAX_RECORDS_PER_FILE")
    case True
    then obtain d where d: "MAX_RECORDS_PER_FILE - num_records = Suc d"
      "MAX_RECORDS_PER_FILE - Suc num_records = d"
      by (cases "MAX_RECORDS_PER_FILE - num_records") auto
    show ?thesis
      using True Cons.IH [of "h[num_records := parse_record atof (h ! num_records) line]"
          "Suc num_records"]
      by (simp add: d)
  next
    case False
    then show ?thesis by simp
  qed
qed

lemma num_blocks_for_pos: "0 < n \<Longrightarrow> 0 < num_blocks_for n"
proof -
  assume "0 < n"
  then have "BLOCK_SIZE \<le> n + BLOCK_SIZE - 1"
    by simp
  then have "0 < (n + BLOCK_SIZE - 1) div BLOCK_SIZE"
    by (simp add: div_greater_zero_iff BLOCK_SIZE_def)
  then show ?thesis
    by (simp add: num_blocks_for_def Let_def)
qed

lemma cuda_record_count:
  assumes "lines \<noteq> []" and "distinct order"
    and "set order = {..<num_blocks_for (min (length lines) MAX_RECORDS_PER_FILE)}"
  shows "\<exists>city. process_city_file_cuda atof h order (Some (header # lines)) city_name cities =
            Some (cities @ [city]) \<and>
          record_count city = int (min (length lines) MAX_RECORDS_PER_FILE)"
proof -
  obtain h' n where r: "read_records atof lines h 0 = (h', n)"
    by (cases "read_records atof lines h 0")
  have n: "n = min (length lines) MAX_RECORDS_PER_FILE"
    using read_records_count [of 0 atof lines h] r by simp
  then have pos: "0 < n"
    using assms(1) by (simp add: MAX_RECORDS_PER_FILE_def)
  have "BLOCK_SIZE = 2 ^ 8" by (simp add: BLOCK_SIZE_def)
  moreover have "0 < num_blocks_for n" using pos by (rule num_blocks_for_pos)
  moreover note assms(2)
  moreover have "set order = {..<num_blocks_for n}" using assms(3) n by simp
  ultimately have "process_weather_records (take n h') BLOCK_SIZE (num_blocks_for n) order
      init_outputs = Some (as_outputs (summary (mset (take n h'))))"
    by (rule kernel_summary)
  then show ?thesis
    using pos by (simp add: process_city_file_cuda_def r n [symmetric])
qed

lemma serial_record_count:
  "process_city_file atof (Some (header # lines)) city_name slot cities =
     cities @ [foldl (process_line get_month atof) (reset_stats (slot\<lparr>name := take 127 city_name\<rparr>)) lines]"
  "record_count (foldl (process_line month_of atof) (reset_stats c) lines) = int (length lines)"
  by (simp_all add: process_city_file_def foldl_record_count reset_stats_sel)

text \<open>
  Claim C10.  For a file with at least one line after the header, the CUDA host
  function parses at most \<open>MAX_RECORDS_PER_FILE = 50000\<close> lines: the result is the same
  as for the file cut after 50000 lines, the reported \<open>record_count\<close> is the number of
  parsed records, the minimum of the number of lines and 50000.  The serial, OpenMP
  and MPI programs count every line.  So the CUDA count is smaller than the serial
  count exactly for files with more than 50000 lines.
\<close>

theorem cuda_record_limit:
  assumes "lines \<noteq> []" and "distinct order"
    and "set order = {..<num_blocks_for (min (length lines) MAX_RECORDS_PER_FILE)}"
  shows "\<exists>city. process_city_file_cuda atof h order (Some (header # lines)) city_name cities =
            Some (cities @ [city]) \<and>
          process_city_file_cuda atof h order
              (Some (header # take MAX_RECORDS_PER_FILE lines)) city_name cities =
            Some (cities @ [city]) \<and>
          record_count city = int (min (length lines) MAX_RECORDS_PER_FILE) \<and>
          record_count city \<le> 50000 \<and>
          record_count (last (process_city_file atof (Some (header # lines)) city_name slot
                          cities)) = int (length lines) \<and>
          record_count (process_city_file_omp get_month atof (Some (header # lines)) slot) =
            int (length lines) \<and>
          record_count (process_city_file_omp get_month_mpi atof (Some (header # lines)) slot) =
            int (length lines) \<and>
          (if MAX_RECORDS_PER_FILE < length lines
           then record_count city <
                record_count (last (process_city_file atof (Some (header # lines)) city_name slot
                                cities))
           else record_count city =
                record_count (last (process_city_file atof (Some (header # lines)) city_name slot
                                cities)))"
proof -
  obtain city where city:
    "process_city_file_cuda atof h order (Some (header # lines)) city_name cities =
       Some (cities @ [city])"
    "record_count city = int (min (length lines) MAX_RECORDS_PER_FILE)"
    using cuda_record_count [OF assms] by blast
  have "process_city_file_cuda atof h order
          (Some (header # take MAX_RECORDS_PER_FILE lines)) city_name cities =
        process_city_file_cuda atof h order (Some (header # lines)) city_name cities"
    using read_records_take [of atof lines h 0]
    by (simp add: process_city_file_cuda_def)
  then show ?thesis
    using city
    by (auto simp add: serial_record_count process_city_file_omp_def MAX_RECORDS_PER_FILE_def)
qed

theorem cuda_record_limit_witness:
  "replicate 50001 line_ok \<noteq> [] \<and> distinct [0..<128] \<and>
   set [0..<128] = {..<num_blocks_for (min (length (replicate 50001 line_ok)) MAX_RECORDS_PER_FILE)} \<and>
   (\<exists>city. process_city_file_cuda atof_decimal (replicate MAX_RECORDS_PER_FILE no_temperature) [0..<128]
              (Some (''header'' # replicate 50001 line_ok)) ''Riyadh'' [] = Some ([] @ [city]) \<and>
      record_count city = 50000 \<and>
      record_count (last (process_city_file atof_decimal
        (Some (''header'' # replicate 50001 line_ok)) ''Riyadh'' empty_city [])) = 50001)"
proof -
  have l: "replicate 50001 line_ok \<noteq> []" by simp
  have d: "distinct [0..<128]" by simp
  have s: "set [0..<128] =
      {..<num_blocks_for (min (length (replicate 50001 line_ok)) MAX_RECORDS_PER_FILE)}"
    by (simp add: num_blocks_for_def MAX_RECORDS_PER_FILE_def BLOCK_SIZE_def lessThan_atLeast0)
  show ?thesis
    using l d s
      cuda_record_limit [OF l d s, of atof_decimal "replicate MAX_RECORDS_PER_FILE no_temperature" "''header''" "''Riyadh''" "[]" empty_city]
    by (auto simp add: MAX_RECORDS_PER_FILE_def)
qed

section \<open>Block and cyclic distribution of the files\<close>

lemma cyclic_loop_done: "num_files \<le> i \<Longrightarrow> cyclic_loop i num_files nprocs acc = Some acc"
  by (subst cyclic_loop.simps) simp

lemma cyclic_loop_step:
  "i < num_files \<Longrightarrow>
   cyclic_loop i num_files nprocs acc = cyclic_loop (i + nprocs) num_files nprocs (acc @ [i])"
  by (subst cyclic_loop.simps) simp

lemma same_residue_far:
  fixes i j w :: nat
  assumes "i < j" "j mod w = i mod w"
  shows "i + w \<le> j"
proof -
  have "w dvd j - i"
    using assms by (metis mod_eq_dvd_iff_nat less_imp_le)
  moreover have "0 < j - i" using assms by simp
  ultimately have "w \<le> j - i" by (simp add: dvd_imp_le)
  then show ?thesis using assms by simp
qed

lemma filter_residue_step:
  assumes "0 < w" "i < n"
  shows "filter (\<lambda>j. j mod w = i mod w) [i..<n] =
         i # filter (\<lambda>j. j mod w = (i + w) mod w) [i + w..<n]"
proof -
  have "j mod w \<noteq> i mod w" if "Suc i \<le> j" "j < i + w" for j
    using same_residue_far [of i j w] that by auto
  then have none: "filter (\<lambda>j. j mod w = i mod w) [Suc i..<min (i + w) n] = []"
    by (auto simp add: filter_empty_conv)
  show ?thesis
  proof (cases "i + w \<le> n")
    case True
    then have "[Suc i..<n] = [Suc i..<i + w] @ [i + w..<n]"
      using assms upt_add_eq_append [of "Suc i" "i + w" "n - (i + w)"] by simp
    then have "[i..<n] = i # [Suc i..<i + w] @ [i + w..<n]"
      using assms by (simp add: upt_conv_Cons)
    moreover have "min (i + w) n = i + w" using True by simp
    ultimately show ?thesis
      using none by simp
  next
    case False
    then have "[i + w..<n] = []" "min (i + w) n = n" by simp_all
    then show ?thesis
      using none assms by (simp add: upt_conv_Cons)
  qed
qed

lemma cyclic_loop_filter:
  assumes "0 < w"
  shows "cyclic_loop i n w acc = Some (acc @ filter (\<lambda>j. j mod w = i mod w) [i..<n])"
proof (induction "n - i" arbitrary: i acc rule: less_induct)
  case less
  show ?case
  proof (cases "i < n")
    case False
    then show ?thesis by (simp add: cyclic_loop_done)
  next
    case True
    have "cyclic_loop i n w acc = cyclic_loop (i + w) n w (acc @ [i])"
      using True by (rule cyclic_loop_step)
    also have "\<dots> = Some ((acc @ [i]) @ filter (\<lambda>j. j mod w = (i + w) mod w) [i + w..<n])"
      using True assms by (intro less) simp
    also have "\<dots> = Some (acc @ filter (\<lambda>j. j mod w = i mod w) [i..<n])"
      using filter_residue_step [OF assms True] by simp
    finally show ?thesis .
  qed
qed

lemma cyclic_files:
  assumes "0 < w" "r < w"
  shows "my_files ''cyclic'' r w n = Some (filter (\<lambda>j. j mod w = r) [0..<n])"
proof -
  have "filter (\<lambda>j. j mod w = r) [0..<n] = filter (\<lambda>j. j mod w = r) [r..<n]"
  proof (cases "r \<le> n")
    case True
    then have "[0..<n] = [0..<r] @ [r..<n]"
      by (metis le0 upt_add_eq_append le_add_diff_inverse)
    moreover have "filter (\<lambda>j. j mod w = r) [0..<r] = []"
      using assms by (auto simp add: filter_empty_conv)
    ultimately show ?thesis by simp
  next
    case False
    then have "filter (\<lambda>j. j mod w = r) [0..<n] = []"
      using assms by (auto simp add: filter_empty_conv)
    then show ?thesis using False by simp
  qed
  then show ?thesis
    using assms cyclic_loop_filter [OF assms(1), of r n "[]"] by (simp add: my_files_def)
qed

lemma cyclic_set:
  assumes "0 < w" "r < w"
  shows "set (filter (\<lambda>j. j mod w = r) [0..<n]) = {j. j < n \<and> (\<exists>k. j = r + k * w)}"
proof -
  have "(j mod w = r) = (\<exists>k. j = r + k * w)" for j
  proof
    assume "j mod w = r"
    then have "j = r + (j div w) * w"
      using div_mult_mod_eq [of j w] by simp
    then show "\<exists>k. j = r + k * w" ..
  next
    assume "\<exists>k. j = r + k * w"
    then show "j mod w = r" using assms by auto
  qed
  then show ?thesis by auto
qed

lemma block_loop_upt:
  "block_loop i my_end num_files acc = acc @ [i..<min my_end num_files]"
proof (induction i my_end num_files acc rule: block_loop.induct)
  case (1 i my_end num_files acc)
  show ?case
  proof (cases "i < my_end \<and> i < num_files")
    case True
    then show ?thesis
      using 1 by (subst block_loop.simps) (simp add: upt_conv_Cons)
  next
    case False
    then show ?thesis
      by (subst block_loop.simps) auto
  qed
qed

lemma block_files:
  assumes "mode \<noteq> ''cyclic''"
  shows "my_files mode r w n =
         Some [r * ((n + w - 1) div w) ..< min ((r + 1) * ((n + w - 1) div w)) n]"
  using assms by (simp add: my_files_def Let_def block_loop_upt min_def add.commute)

lemma ceil_div:
  assumes "0 < w"
  shows "(n + w - 1) div w = nat \<lceil>real n / real w\<rceil>"
proof -
  let ?c = "(n + w - 1) div w"
  have up: "n \<le> ?c * w"
  proof -
    have "n + w - 1 < ?c * w + w"
      using assms div_mult_mod_eq [of "n + w - 1" w] mod_less_divisor [OF assms, of "n + w - 1"]
      by linarith
    then show ?thesis by simp
  qed
  have lo: "(?c - 1) * w < n" if "0 < ?c"
  proof -
    have le: "?c * w \<le> n + w - 1"
      by (rule div_times_less_eq_dividend)
    have "0 < n"
    proof (rule ccontr)
      assume "\<not> 0 < n"
      then have "?c = 0" using assms by simp
      then show False using that by simp
    qed
    then have "?c * w - w < n" using assms le by linarith
    then show ?thesis by (simp add: diff_mult_distrib)
  qed
  have "\<lceil>real n / real w\<rceil> = int ?c"
  proof (rule ceiling_unique)
    show "real n / real w \<le> of_int (int ?c)"
      using up assms by (simp add: divide_le_eq flip: of_nat_mult)
    show "of_int (int ?c) - 1 < real n / real w"
    proof (cases "0 < ?c")
      case True
      then have "real ((?c - 1) * w) < real n"
        using lo by (simp only: of_nat_less_iff)
      moreover have "real ((?c - 1) * w) = (real ?c - 1) * real w"
        using True by (simp add: of_nat_diff)
      ultimately have "(real ?c - 1) * real w < real n"
        by (simp only:)
      then show ?thesis
        using assms by (simp add: less_divide_eq)
    next
      case False
      then show ?thesis
        using assms by simp (smt (verit) divide_nonneg_pos of_nat_0_le_iff of_nat_0_less_iff)
    qed
  qed
  then show ?thesis by simp
qed

lemma block_cover:
  assumes "0 < w" "i < n"
  shows "\<exists>!r. r < w \<and> i \<in> set [r * ((n + w - 1) div w) ..< min ((r + 1) * ((n + w - 1) div w)) n]"
proof -
  let ?c = "(n + w - 1) div w"
  have "w \<le> n + w - 1" using assms by simp
  then have c: "0 < ?c"
    using assms(1) by (simp add: div_greater_zero_iff)
  have up: "n \<le> ?c * w"
  proof -
    have "n + w - 1 < ?c * w + w"
      using assms div_mult_mod_eq [of "n + w - 1" w] mod_less_divisor [OF assms(1), of "n + w - 1"]
      by linarith
    then show ?thesis by simp
  qed
  have in_block: "(i \<in> set [r * ?c ..< min ((r + 1) * ?c) n]) = (r = i div ?c)" for r
  proof
    assume "i \<in> set [r * ?c ..< min ((r + 1) * ?c) n]"
    then have "?c * r \<le> i" "i < ?c * Suc r"
      by (simp_all add: mult.commute)
    then show "r = i div ?c"
      by (simp add: div_nat_eqI)
  next
    assume r: "r = i div ?c"
    have "i div ?c * ?c \<le> i"
      by (rule div_times_less_eq_dividend)
    moreover have "i < (i div ?c + 1) * ?c"
      using dividend_less_div_times [OF c, of i] by simp
    ultimately show "i \<in> set [r * ?c ..< min ((r + 1) * ?c) n]"
      using r assms(2) by simp
  qed
  have "i div ?c < w"
    using assms(2) up by (intro less_mult_imp_div_less) (simp add: mult.commute)
  then show ?thesis
    unfolding in_block by auto
qed

lemma cyclic_cover:
  assumes "0 < w" "i < n"
  shows "\<exists>!r. r < w \<and> i \<in> set (filter (\<lambda>j. j mod w = r) [0..<n])"
  using assms by auto

text \<open>
  Claim C6.  For \<open>nprocs \<ge> 1\<close> processes and every number \<open>n\<close> of files, the loops
  of \<open>main\<close> return, for \<open>rank < nprocs\<close>: in block mode (every mode other than
  \<open>cyclic\<close>) the indices from \<open>rank * c\<close> up to but excluding
  \<open>min ((rank + 1) * c) n\<close>, where \<open>c = (n + nprocs - 1) div nprocs\<close> is the ceiling
  of \<open>n / nprocs\<close> (an empty list when \<open>rank * c \<ge> n\<close>); in cyclic mode the indices
  below \<open>n\<close> of the form \<open>rank + k * nprocs\<close>, in increasing order.  In both modes
  every index below \<open>n\<close> belongs to exactly one rank, and the list of a rank has no
  duplicates and lies below \<open>n\<close>.  The lists are functions of the rank, the number of
  processes and the number of files alone.
\<close>

theorem partition_planner:
  assumes "0 < nprocs" and "rank < nprocs" and "mode \<noteq> ''cyclic''"
  shows "my_files mode rank nprocs n =
           Some [rank * ((n + nprocs - 1) div nprocs) ..<
                 min ((rank + 1) * ((n + nprocs - 1) div nprocs)) n] \<and>
         (n + nprocs - 1) div nprocs = nat \<lceil>real n / real nprocs\<rceil> \<and>
         my_files ''cyclic'' rank nprocs n = Some (filter (\<lambda>i. i mod nprocs = rank) [0..<n]) \<and>
         set (filter (\<lambda>i. i mod nprocs = rank) [0..<n]) =
           {i. i < n \<and> (\<exists>k. i = rank + k * nprocs)} \<and>
         (\<forall>i<n. \<exists>!r. r < nprocs \<and> (\<exists>xs. my_files mode r nprocs n = Some xs \<and> i \<in> set xs)) \<and>
         (\<forall>i<n. \<exists>!r. r < nprocs \<and> (\<exists>xs. my_files ''cyclic'' r nprocs n = Some xs \<and> i \<in> set xs)) \<and>
         (\<forall>r<nprocs. \<exists>xs ys. my_files mode r nprocs n = Some xs \<and>
             my_files ''cyclic'' r nprocs n = Some ys \<and>
             distinct xs \<and> distinct ys \<and> set xs \<subseteq> {..<n} \<and> set ys \<subseteq> {..<n})"
proof (intro conjI)
  show "my_files mode rank nprocs n =
           Some [rank * ((n + nprocs - 1) div nprocs) ..<
                 min ((rank + 1) * ((n + nprocs - 1) div nprocs)) n]"
    using assms(3) by (rule block_files)
  show "(n + nprocs - 1) div nprocs = nat \<lceil>real n / real nprocs\<rceil>"
    using assms(1) by (rule ceil_div)
  show "my_files ''cyclic'' rank nprocs n = Some (filter (\<lambda>i. i mod nprocs = rank) [0..<n])"
    using assms(1,2) by (rule cyclic_files)
  show "set (filter (\<lambda>i. i mod nprocs = rank) [0..<n]) =
           {i. i < n \<and> (\<exists>k. i = rank + k * nprocs)}"
    using assms(1,2) by (rule cyclic_set)
  show "\<forall>i<n. \<exists>!r. r < nprocs \<and> (\<exists>xs. my_files mode r nprocs n = Some xs \<and> i \<in> set xs)"
    using block_cover [OF assms(1)] by (simp add: block_files [OF assms(3)])
  show "\<forall>i<n. \<exists>!r. r < nprocs \<and> (\<exists>xs. my_files ''cyclic'' r nprocs n = Some xs \<and> i \<in> set xs)"
  proof (intro allI impI)
    fix i assume "i < n"
    have "(r < nprocs \<and> (\<exists>xs. my_files ''cyclic'' r nprocs n = Some xs \<and> i \<in> set xs)) =
          (r < nprocs \<and> i \<in> set (filter (\<lambda>j. j mod nprocs = r) [0..<n]))" for r
      using cyclic_files [OF assms(1), of r n] by auto
    then show "\<exists>!r. r < nprocs \<and> (\<exists>xs. my_files ''cyclic'' r nprocs n = Some xs \<and> i \<in> set xs)"
      using cyclic_cover [OF assms(1) \<open>i < n\<close>] by simp
  qed
  show "\<forall>r<nprocs. \<exists>xs ys. my_files mode r nprocs n = Some xs \<and>
             my_files ''cyclic'' r nprocs n = Some ys \<and>
             distinct xs \<and> distinct ys \<and> set xs \<subseteq> {..<n} \<and> set ys \<subseteq> {..<n}"
    using assms(1) by (auto simp add: block_files [OF assms(3)] cyclic_files)
qed

lemma cyclic_example: "filter (\<lambda>i. i mod 4 = 3) [0..<10] = [3, 7 :: nat]"
  by code_simp

theorem partition_planner_witness:
  "(0::nat) < 4 \<and> (3::nat) < 4 \<and> ''block'' \<noteq> ''cyclic'' \<and>
   my_files ''block'' 3 4 10 = Some [9] \<and> my_files ''cyclic'' 3 4 10 = Some [3, 7]"
proof -
  have a: "(0::nat) < 4" "(3::nat) < 4" "''block'' \<noteq> ''cyclic''"
    by simp_all
  show ?thesis
    using a partition_planner [OF a, of 10] by (simp add: cyclic_example)
qed

section \<open>Gathering the results on rank 0\<close>

lemma offset_0 [simp]: "offset counts 0 = 0"
  by (simp add: offset_def)

lemma offset_Suc: "i < length counts \<Longrightarrow> offset counts (Suc i) = offset counts i + counts ! i"
  by (simp add: offset_def take_Suc_conv_app_nth)

lemma offset_mono: "i \<le> j \<Longrightarrow> offset counts i \<le> offset counts j"
proof -
  assume "i \<le> j"
  then have "take j counts = take i counts @ take (j - i) (drop i counts)"
    by (metis le_add_diff_inverse take_add)
  then show ?thesis by (simp add: offset_def)
qed

lemma displacements_upto:
  assumes "length d = length counts"
  shows "1 \<le> k \<Longrightarrow> k \<le> length counts \<Longrightarrow>
         fold (\<lambda>i d. d[i := d ! (i - 1) + counts ! (i - 1)]) [1..<k] (d[0 := 0]) =
         map (\<lambda>i. if i < k then offset counts i else d ! i) [0..<length counts]"
proof (induction k)
  case 0
  then show ?case by simp
next
  case (Suc k)
  show ?case
  proof (cases "k = 0")
    case True
    have "d[0 := 0] = map (\<lambda>i. if i < Suc 0 then offset counts i else d ! i) [0..<length counts]"
    proof (rule nth_equalityI)
      show "length (d[0 := 0]) =
            length (map (\<lambda>i. if i < Suc 0 then offset counts i else d ! i) [0..<length counts])"
        using assms by simp
      fix i assume "i < length (d[0 := 0])"
      then have "i < length counts" "i < length d" using assms by simp_all
      then show "d[0 := 0] ! i =
            map (\<lambda>i. if i < Suc 0 then offset counts i else d ! i) [0..<length counts] ! i"
        by (cases i) simp_all
    qed
    then show ?thesis using True by simp
  next
    case False
    then have k: "1 \<le> k" "k \<le> length counts" "k < length counts"
      using Suc.prems by simp_all
    let ?m = "map (\<lambda>i. if i < k then offset counts i else d ! i) [0..<length counts]"
    have "fold (\<lambda>i d. d[i := d ! (i - 1) + counts ! (i - 1)]) [1..<Suc k] (d[0 := 0]) =
          ?m[k := ?m ! (k - 1) + counts ! (k - 1)]"
      using k Suc.IH by simp
    also have "\<dots> = map (\<lambda>i. if i < Suc k then offset counts i else d ! i) [0..<length counts]"
    proof (rule nth_equalityI)
      show "length (?m[k := ?m ! (k - 1) + counts ! (k - 1)]) =
            length (map (\<lambda>i. if i < Suc k then offset counts i else d ! i) [0..<length counts])"
        by simp
      fix i assume "i < length (?m[k := ?m ! (k - 1) + counts ! (k - 1)])"
      then have i: "i < length counts" by simp
      have "offset counts k = offset counts (k - 1) + counts ! (k - 1)"
        using k offset_Suc [of "k - 1" counts] by simp
      then show "?m[k := ?m ! (k - 1) + counts ! (k - 1)] ! i =
            map (\<lambda>i. if i < Suc k then offset counts i else d ! i) [0..<length counts] ! i"
        using i k by (cases "i = k") (simp_all add: nth_list_update)
    qed
    finally show ?thesis .
  qed
qed

lemma compute_displacements_eq:
  assumes "length d = length counts" "counts \<noteq> []"
  shows "compute_displacements counts d = map (offset counts) [0..<length counts]"
proof -
  have "1 \<le> length counts" using assms(2) by (cases counts) simp_all
  then have "compute_displacements counts d =
      map (\<lambda>i. if i < length counts then offset counts i else d ! i) [0..<length counts]"
    unfolding compute_displacements_def using assms(1) by (intro displacements_upto) simp_all
  then show ?thesis by (simp cong: map_cong)
qed

lemma store_block_upto:
  "k \<le> length items \<Longrightarrow>
   fold (\<lambda>j buf. buf[displ + j := items ! j]) [0..<k] buf =
   map (\<lambda>p. if displ \<le> p \<and> p < displ + k then items ! (p - displ) else buf ! p) [0..<length buf]"
proof (induction k)
  case 0
  have "buf = map (\<lambda>p. if displ \<le> p \<and> p < displ + 0 then items ! (p - displ) else buf ! p)
      [0..<length buf]"
    by (rule nth_equalityI) auto
  then show ?case by simp
next
  case (Suc k)
  let ?m = "map (\<lambda>p. if displ \<le> p \<and> p < displ + k then items ! (p - displ) else buf ! p)
              [0..<length buf]"
  have "fold (\<lambda>j buf. buf[displ + j := items ! j]) [0..<Suc k] buf = ?m[displ + k := items ! k]"
    using Suc by simp
  also have "\<dots> = map (\<lambda>p. if displ \<le> p \<and> p < displ + Suc k then items ! (p - displ) else buf ! p)
              [0..<length buf]"
  proof (rule nth_equalityI)
    show "length (?m[displ + k := items ! k]) =
          length (map (\<lambda>p. if displ \<le> p \<and> p < displ + Suc k then items ! (p - displ) else buf ! p)
              [0..<length buf])"
      by simp
    fix i assume "i < length (?m[displ + k := items ! k])"
    then have i: "i < length buf" by simp
    show "?m[displ + k := items ! k] ! i =
          map (\<lambda>p. if displ \<le> p \<and> p < displ + Suc k then items ! (p - displ) else buf ! p)
              [0..<length buf] ! i"
      using i by (cases "i = displ + k") (auto simp add: nth_list_update)
  qed
  finally show ?case .
qed

lemma length_store_block [simp]: "length (store_block buf displ items) = length buf"
  by (simp add: store_block_def store_block_upto)

lemma store_block_nth:
  "p < length buf \<Longrightarrow>
   store_block buf displ items ! p =
   (if displ \<le> p \<and> p < displ + length items then items ! (p - displ) else buf ! p)"
  by (simp add: store_block_def store_block_upto)

lemma offset_total: "offset counts (length counts) = sum_list counts"
  by (simp add: offset_def)

lemma offset_block_le:
  "i < length counts \<Longrightarrow> offset counts i + counts ! i \<le> sum_list counts"
  using offset_mono [of "Suc i" "length counts" counts]
  by (simp add: offset_Suc offset_total)

lemma blocks_disjoint:
  assumes "i < length counts" "a < length counts" "i \<noteq> a" "j < counts ! i"
  shows "\<not> (offset counts a \<le> offset counts i + j \<and>
            offset counts i + j < offset counts a + counts ! a)"
proof (cases "i < a")
  case True
  then have "offset counts (Suc i) \<le> offset counts a"
    by (intro offset_mono) simp
  then show ?thesis
    using assms by (simp add: offset_Suc)
next
  case False
  then have "offset counts (Suc a) \<le> offset counts i"
    using assms(3) by (intro offset_mono) simp
  then show ?thesis
    using assms by (simp add: offset_Suc)
qed

lemma gatherv_blocks:
  fixes locals :: "'a list list"
  defines "counts \<equiv> map length locals"
  assumes "set arrival \<subseteq> {..<length locals}" "length buf = sum_list counts"
  shows "length (gatherv locals counts (map (offset counts) [0..<length locals]) arrival buf) =
           length buf \<and>
         (\<forall>i\<in>set arrival. \<forall>j<length (locals ! i).
            gatherv locals counts (map (offset counts) [0..<length locals]) arrival buf !
              (offset counts i + j) = locals ! i ! j)"
  using assms(2)
proof (induction arrival rule: rev_induct)
  case Nil
  then show ?case by (simp add: gatherv_def)
next
  case (snoc a arrival)
  let ?g = "\<lambda>as. gatherv locals counts (map (offset counts) [0..<length locals]) as buf"
  have a: "a < length locals" and sub: "set arrival \<subseteq> {..<length locals}"
    using snoc.prems by simp_all
  have len: "length (?g arrival) = length buf"
    and old: "\<And>i j. i \<in> set arrival \<Longrightarrow> j < length (locals ! i) \<Longrightarrow>
                ?g arrival ! (offset counts i + j) = locals ! i ! j"
    using snoc.IH [OF sub] by simp_all
  have step: "?g (arrival @ [a]) = store_block (?g arrival) (offset counts a) (locals ! a)"
    using a by (simp add: gatherv_def counts_def)
  have lc: "length counts = length locals" and ca: "\<And>i. i < length locals \<Longrightarrow> counts ! i = length (locals ! i)"
    by (simp_all add: counts_def)
  have inb: "offset counts i + j < length buf" if "i < length locals" "j < length (locals ! i)" for i j
    using offset_block_le [of i counts] that assms(3) by (simp add: lc ca)
  have "?g (arrival @ [a]) ! (offset counts i + j) = locals ! i ! j"
    if i: "i \<in> set (arrival @ [a])" and j: "j < length (locals ! i)" for i j
  proof (cases "i = a")
    case True
    then show ?thesis
      using j a inb [of a j] by (simp add: step store_block_nth len)
  next
    case False
    then have ia: "i \<in> set arrival" using i by simp
    then have il: "i < length locals" using sub by auto
    have "\<not> (offset counts a \<le> offset counts i + j \<and>
              offset counts i + j < offset counts a + length (locals ! a))"
      using blocks_disjoint [of i counts a j] il a False j by (simp add: lc ca)
    then show ?thesis
      using inb [OF il j] old [OF ia j] by (auto simp add: step store_block_nth len)
  qed
  then show ?case
    by (simp add: step len)
qed

lemma concat_nth_offset:
  "i < length xss \<Longrightarrow> j < length (xss ! i) \<Longrightarrow>
   concat xss ! (offset (map length xss) i + j) = xss ! i ! j"
proof (induction xss arbitrary: i)
  case Nil
  then show ?case by simp
next
  case (Cons xs xss)
  show ?case
  proof (cases i)
    case 0
    then show ?thesis using Cons.prems by (simp add: nth_append)
  next
    case (Suc k)
    then have "offset (map length (xs # xss)) i = length xs + offset (map length xss) k"
      by (simp add: offset_def)
    then show ?thesis
      using Cons Suc by (simp add: nth_append add.assoc)
  qed
qed

lemma concat_position:
  "p < length (concat xss) \<Longrightarrow>
   \<exists>i j. i < length xss \<and> j < length (xss ! i) \<and> p = offset (map length xss) i + j"
proof (induction xss arbitrary: p)
  case Nil
  then show ?case by simp
next
  case (Cons xs xss)
  show ?case
  proof (cases "p < length xs")
    case True
    then have "0 < length (xs # xss) \<and> p < length ((xs # xss) ! 0) \<and>
               p = offset (map length (xs # xss)) 0 + p"
      by simp
    then show ?thesis by blast
  next
    case False
    then have "p - length xs < length (concat xss)"
      using Cons.prems by simp
    then obtain i j where ij: "i < length xss" "j < length (xss ! i)"
      "p - length xs = offset (map length xss) i + j"
      using Cons.IH by blast
    have "offset (map length (xs # xss)) (Suc i) = length xs + offset (map length xss) i"
      by (simp add: offset_def)
    then have "Suc i < length (xs # xss) \<and> j < length ((xs # xss) ! Suc i) \<and>
               p = offset (map length (xs # xss)) (Suc i) + j"
      using ij False by simp
    then show ?thesis by blast
  qed
qed

lemma gather_results_eq:
  assumes "local_results \<noteq> []" "length displacements = length local_results"
    and "length all_results = sum_list (map length local_results)"
    and "set arrival = {..<length local_results}"
  shows "gather_results local_results arrival displacements all_results = concat local_results"
    and "\<And>i j. i < length local_results \<Longrightarrow> j < length (local_results ! i) \<Longrightarrow>
          gather_results local_results arrival displacements all_results !
            (offset (map length local_results) i + j) = local_results ! i ! j"
proof -
  let ?counts = "map length local_results"
  let ?r = "gather_results local_results arrival displacements all_results"
  have d: "compute_displacements ?counts displacements =
           map (offset ?counts) [0..<length local_results]"
    using compute_displacements_eq [of displacements ?counts] assms(1,2) by simp
  have r: "?r = gatherv local_results ?counts (map (offset ?counts) [0..<length local_results])
                  arrival all_results"
    by (simp add: gather_results_def Let_def d)
  have g: "length ?r = length all_results"
    "\<And>i j. i \<in> set arrival \<Longrightarrow> j < length (local_results ! i) \<Longrightarrow>
       ?r ! (offset ?counts i + j) = local_results ! i ! j"
    using gatherv_blocks [of arrival local_results all_results] assms(3,4)
    unfolding r by simp_all
  show nth: "?r ! (offset ?counts i + j) = local_results ! i ! j"
    if "i < length local_results" "j < length (local_results ! i)" for i j
    using that g(2) [of i j] assms(4) by simp
  show "?r = concat local_results"
  proof (rule nth_equalityI)
    show "length ?r = length (concat local_results)"
      using g(1) assms(3) by (simp add: length_concat)
    fix p assume "p < length ?r"
    then have "p < length (concat local_results)"
      using g(1) assms(3) by (simp add: length_concat)
    then obtain i j where "i < length local_results" "j < length (local_results ! i)"
      "p = offset ?counts i + j"
      using concat_position by blast
    then show "?r ! p = concat local_results ! p"
      using nth [of i j] concat_nth_offset [of i local_results j] by simp
  qed
qed

lemma scenario_d: "length d = 4 \<Longrightarrow> compute_displacements [0, 5, 3, 0] d = [0, 0, 5, 8]"
  by (simp add: compute_displacements_eq offset_def upt_rec_numeral eval_nat_numeral)

lemma four_sources: "set [2, 0, 3, 1] = {..<length [[], [1, 2, 3, 4, 5], [6, 7, 8], [] :: nat list]}"
  by auto

text \<open>
  Claim C4.  Rank 0 computes as displacements the exclusive prefix sums of the counts
  (offset 0 is 0, each further offset is the previous one plus the previous count, so
  a source without results takes no room).  Whatever the order in which the results
  of the sources arrive, the gathered buffer holds result \<open>j\<close> of source \<open>i\<close> at
  position \<open>offset i + j\<close>; it is the concatenation of the local results in the order
  of the ranks.  For the counts 0, 5, 3, 0 the displacements are 0, 0, 5, 8.
\<close>

theorem result_collector:
  assumes "local_results \<noteq> []" and "length displacements = length local_results"
    and "length all_results = sum_list (map length local_results)"
    and "distinct arrival" and "set arrival = {..<length local_results}"
    and "length d = 4"
  shows "compute_displacements (map length local_results) displacements =
           map (offset (map length local_results)) [0..<length local_results] \<and>
         offset (map length local_results) 0 = 0 \<and>
         (\<forall>i<length local_results.
            offset (map length local_results) (Suc i) =
              offset (map length local_results) i + length (local_results ! i)) \<and>
         (\<forall>i<length local_results. \<forall>j<length (local_results ! i).
            gather_results local_results arrival displacements all_results !
              (compute_displacements (map length local_results) displacements ! i + j) =
            local_results ! i ! j) \<and>
         gather_results local_results arrival displacements all_results = concat local_results \<and>
         compute_displacements [0, 5, 3, 0] d = [0, 0, 5, 8]"
proof -
  let ?counts = "map length local_results"
  have d: "compute_displacements ?counts displacements =
           map (offset ?counts) [0..<length local_results]"
    using compute_displacements_eq [of displacements ?counts] assms(1,2) by simp
  have "\<forall>i<length local_results. offset ?counts (Suc i) = offset ?counts i + length (local_results ! i)"
    by (simp add: offset_Suc)
  moreover have "\<forall>i<length local_results. \<forall>j<length (local_results ! i).
            gather_results local_results arrival displacements all_results !
              (compute_displacements ?counts displacements ! i + j) = local_results ! i ! j"
    using gather_results_eq(2) [OF assms(1,2,3,5)] by (simp add: d)
  ultimately show ?thesis
    using d gather_results_eq(1) [OF assms(1,2,3,5)] scenario_d [OF assms(6)] by simp
qed

theorem result_collector_witness:
  "[[], [1, 2, 3, 4, 5], [6, 7, 8], [] :: nat list] \<noteq> [] \<and>
   length (replicate 4 (99::nat)) = length [[], [1, 2, 3, 4, 5], [6, 7, 8], [] :: nat list] \<and>
   length (replicate 8 (0::nat)) =
     sum_list (map length [[], [1, 2, 3, 4, 5], [6, 7, 8], [] :: nat list]) \<and>
   distinct [2, 0, 3, 1 :: nat] \<and>
   set [2, 0, 3, 1] = {..<length [[], [1, 2, 3, 4, 5], [6, 7, 8], [] :: nat list]} \<and>
   length (replicate 4 (7::nat)) = 4 \<and>
   gather_results [[], [1, 2, 3, 4, 5], [6, 7, 8], []] [2, 0, 3, 1] (replicate 4 99)
     (replicate 8 0) = [1, 2, 3, 4, 5, 6, 7, 8 :: nat] \<and>
   compute_displacements [0, 5, 3, 0] (replicate 4 7) = [0, 0, 5, 8]"
proof -
  have a: "[[], [1, 2, 3, 4, 5], [6, 7, 8], [] :: nat list] \<noteq> []"
    "length (replicate 4 (99::nat)) = length [[], [1, 2, 3, 4, 5], [6, 7, 8], [] :: nat list]"
    "length (replicate 8 (0::nat)) =
       sum_list (map length [[], [1, 2, 3, 4, 5], [6, 7, 8], [] :: nat list])"
    "distinct [2, 0, 3, 1 :: nat]"
    by simp_all
  have b: "length (replicate 4 (7::nat)) = 4" by simp
  show ?thesis
    using a b four_sources result_collector [OF a four_sources b] by simp
qed

section \<open>The update of the global minimum by several blocks\<close>

lemma records_300_nth:
  "i < 300 \<Longrightarrow> records_300 ! i = (if i = 0 then rec_temp 5 else rec_temp 10)"
  by (cases i) (simp_all add: records_300_def)

lemma length_records_300: "length records_300 = 300"
  by (simp add: records_300_def)

lemma set_mset_sum_lessThan:
  "set_mset (\<Sum>t<(n::nat). A t) = (\<Union>t<n. set_mset (A t))"
  by (induction n) (simp_all add: lessThan_Suc Un_commute)

lemma least_eqI:
  assumes "v \<in># T" "\<And>t. t \<in># T \<Longrightarrow> v \<le> t" "v \<le> s"
  shows "least s T = v"
proof -
  have "Min (insert s (set_mset T)) = v"
    using assms by (intro Min_eqI) auto
  then show ?thesis by (simp add: least_def)
qed

lemma in_temps: "t \<in># temps M \<longleftrightarrow> (\<exists>r. r \<in># M \<and> valid_temp r \<and> avg_temp r = t)"
  by (auto simp add: temps_def)

lemma in_share:
  "r \<in># share records stride idx \<longleftrightarrow> (\<exists>i \<in> owned stride (length records) idx. r = records ! i)"
  by (auto simp add: share_def)

lemma block_minimum:
  assumes "BLOCK_SIZE * b < 300" "b < 2"
    and "v = (if b = 0 then 5 else 10)"
  shows "\<exists>s0. block_result records_300 BLOCK_SIZE 2 b = Some s0 \<and> sh_temp_min s0 = v"
proof -
  let ?M = "\<Sum>tid<BLOCK_SIZE. share records_300 (BLOCK_SIZE * 2) (b * BLOCK_SIZE + tid)"
  have B: "BLOCK_SIZE = 2 ^ 8" by (simp add: BLOCK_SIZE_def)
  have res: "block_result records_300 BLOCK_SIZE 2 b = Some (summary ?M)"
    using B by (rule block_result_summary) simp
  have mem: "r \<in># ?M \<longleftrightarrow>
      (\<exists>tid<BLOCK_SIZE. \<exists>i \<in> owned (BLOCK_SIZE * 2) 300 (b * BLOCK_SIZE + tid).
         r = records_300 ! i)" for r
    by (auto simp add: set_mset_sum_lessThan in_share length_records_300)
  have first: "records_300 ! (b * BLOCK_SIZE) \<in># ?M"
    unfolding mem using assms(1)
    by (intro exI [of _ 0]) (auto simp add: owned_def BLOCK_SIZE_def mult.commute)
  have v: "records_300 ! (b * BLOCK_SIZE) = rec_temp v"
    using assms by (simp add: records_300_nth mult.commute BLOCK_SIZE_def)
  have "v \<in># temps ?M"
    unfolding in_temps using first v by (auto simp add: rec_temp_def)
  moreover have "v \<le> t" if "t \<in># temps ?M" for t
  proof -
    from that obtain r where r: "r \<in># ?M" "avg_temp r = t"
      by (auto simp add: in_temps)
    then obtain tid i where i: "i \<in> owned (BLOCK_SIZE * 2) 300 (b * BLOCK_SIZE + tid)"
      "r = records_300 ! i"
      unfolding mem by blast
    then have "i < 300" "b * BLOCK_SIZE \<le> i"
      by (simp_all add: owned_def)
    then show ?thesis
      using i(2) r(2) assms(2,3) by (auto simp add: records_300_nth rec_temp_def BLOCK_SIZE_def)
  qed
  moreover have "v \<le> FLT_MAX"
    using assms(3) by (simp add: FLT_MAX_value)
  ultimately have "least FLT_MAX (temps ?M) = v"
    by (rule least_eqI)
  then show ?thesis
    by (simp add: res summary_def)
qed

lemma run_min_sequential: "run_min block_min [Load b, Store b] g = fminf_df g (block_min b)"
  by (simp add: run_min_def)

lemma serial_min_300: "temp_min (foldl process_record (reset_stats empty_city) records_300) = 5"
proof -
  have set: "set records_300 \<subseteq> {rec_temp 5, rec_temp 10}" "rec_temp 5 \<in> set records_300"
    by (auto simp add: records_300_def)
  have "least DBL_MAX (temps (mset records_300)) = 5"
  proof (rule least_eqI)
    show "5 \<in># temps (mset records_300)"
      unfolding in_temps using set(2) by (intro exI [of _ "rec_temp 5"]) (simp add: rec_temp_def)
    show "5 \<le> t" if "t \<in># temps (mset records_300)" for t
      using that set(1) unfolding in_temps by (auto simp add: rec_temp_def)
    show "5 \<le> DBL_MAX"
      by (simp add: DBL_MAX_def)
  qed
  then show ?thesis
    by (simp add: serial_summary city_of_def)
qed

text \<open>
  Claim C2.  The kernel updates the global minimum (and maximum) by a plain read
  followed by a plain write, not by an atomic operation.  For the 300 records above
  and two blocks, block 0 ends with minimum 5 and block 1 with minimum 10.  If each
  block reads and writes without the other in between, the global minimum is 5, the
  minimum of the serial fold; this is what \<open>thread0_writes\<close> computes.  If both blocks
  read the initial value before either writes, the write of block 1 overwrites the 5
  of block 0 and the global minimum ends as 10.
\<close>

theorem lost_minimum_update:
  "\<exists>s0 s1. block_result records_300 BLOCK_SIZE 2 0 = Some s0 \<and>
     block_result records_300 BLOCK_SIZE 2 1 = Some s1 \<and>
     sh_temp_min s0 = 5 \<and> sh_temp_min s1 = 10 \<and>
     temp_min (foldl process_record (reset_stats empty_city) records_300) = 5 \<and>
     run_min (\<lambda>b. if b = 0 then sh_temp_min s0 else sh_temp_min s1)
       [Load 0, Store 0, Load 1, Store 1] (temp_min_out init_outputs) = 5 \<and>
     run_min (\<lambda>b. if b = 0 then sh_temp_min s0 else sh_temp_min s1)
       [Load 1, Store 1, Load 0, Store 0] (temp_min_out init_outputs) = 5 \<and>
     run_min (\<lambda>b. if b = 0 then sh_temp_min s0 else sh_temp_min s1)
       [Load 0, Load 1, Store 0, Store 1] (temp_min_out init_outputs) = 10 \<and>
     temp_min_out (thread0_writes init_outputs s0) =
       run_min (\<lambda>b. sh_temp_min s0) [Load 0, Store 0] (temp_min_out init_outputs)"
proof -
  obtain s0 where s0: "block_result records_300 BLOCK_SIZE 2 0 = Some s0" "sh_temp_min s0 = 5"
    using block_minimum [of 0 5] by (auto simp add: BLOCK_SIZE_def)
  obtain s1 where s1: "block_result records_300 BLOCK_SIZE 2 1 = Some s1" "sh_temp_min s1 = 10"
    using block_minimum [of 1 10] by (auto simp add: BLOCK_SIZE_def)
  have "FLT_MAX < DBL_MAX" by (rule DBL_MAX_gt_FLT_MAX)
  moreover have "10 < FLT_MAX" by (simp add: FLT_MAX_value)
  ultimately show ?thesis
    using s0 s1 serial_min_300
    by (intro exI [of _ s0] exI [of _ s1])
      (simp add: run_min_def fminf_df_def init_outputs_def thread0_writes_def)
qed

end
